theory Spec2Isabelle
  imports Main
begin

section \<open>Values and result objects\<close>

text \<open>
  The values the server receives in a JSON body. \<open>JUndefined\<close> stands for a property
  that is absent. Numbers are the integers; the server only ever turns an element of
  \<open>urls\<close> into a string, so nothing else about numbers is used, and an integer below
  10^21 in absolute value is printed in plain decimal.
\<close>

datatype jsval =
    JUndefined
  | JNull
  | JBool bool
  | JNum int
  | JStr string
  | JArr "jsval list"
  | JObj "(string \<times> jsval) list"

text \<open>JavaScript truthiness, as used by \<open>!urls\<close>.\<close>

fun truthy :: "jsval \<Rightarrow> bool" where
  "truthy JUndefined = False"
| "truthy JNull = False"
| "truthy (JBool b) = b"
| "truthy (JNum n) = (n \<noteq> 0)"
| "truthy (JStr s) = (s \<noteq> [])"
| "truthy (JArr xs) = True"
| "truthy (JObj kvs) = True"

text \<open>\<open>Array.isArray\<close>.\<close>

fun isArray :: "jsval \<Rightarrow> bool" where
  "isArray (JArr xs) = True"
| "isArray v = False"

fun string_of_nat :: "nat \<Rightarrow> string" where
  "string_of_nat n =
     (if n < 10 then [char_of (48 + n)]
      else string_of_nat (n div 10) @ [char_of (48 + n mod 10)])"

definition string_of_int :: "int \<Rightarrow> string" where
  "string_of_int i = (if i < 0 then CHR ''-'' # string_of_nat (nat (- i)) else string_of_nat (nat i))"

fun join_comma :: "string list \<Rightarrow> string" where
  "join_comma [] = []"
| "join_comma [s] = s"
| "join_comma (s # t # ss) = s @ '','' @ join_comma (t # ss)"

text \<open>
  The string a value becomes in a template literal \<open>`${url}`\<close> and in \<open>new URL(url)\<close>:
  a string is itself, an array is its elements joined by commas with \<open>null\<close> and
  \<open>undefined\<close> elements left empty, an object is \<open>[object Object]\<close>.
\<close>

fun to_string :: "jsval \<Rightarrow> string" where
  "to_string JUndefined = ''undefined''"
| "to_string JNull = ''null''"
| "to_string (JBool b) = (if b then ''true'' else ''false'')"
| "to_string (JNum n) = string_of_int n"
| "to_string (JStr s) = s"
| "to_string (JArr xs) =
     join_comma (map (\<lambda>x. if x = JNull \<or> x = JUndefined then [] else to_string x) xs)"
| "to_string (JObj kvs) = ''[object Object]''"

text \<open>
  The object \<open>checkUrlSafety\<close> returns. A field the object literal does not mention is
  \<open>None\<close>: the error objects carry no \<open>positives\<close> and no \<open>total_scans\<close>, the
  verdicts carry no \<open>message\<close>.
\<close>

record safety_result =
  status :: string
  message :: "string option"
  positives :: "int option"
  total_scans :: "int option"

text \<open>The object \<open>checkRedirects\<close> returns.\<close>

record redirect_result =
  r_status :: string
  r_message :: "string option"
  redirect_chain :: "jsval list"
  status_codes :: "int list"
  final_url_safety :: safety_result

text \<open>
  The object \<open>validateUrlStructure\<close> returns: \<open>{status, domain}\<close> for a URL that parses,
  and an object with a message and stub redirect fields for one that does not.
\<close>

record structure_result =
  v_status :: string
  v_domain :: "string option"
  v_message :: "string option"
  v_redirect_chain :: "jsval list option"
  v_status_codes :: "int list option"
  v_final_url_safety :: "safety_result option"

text \<open>One element of the array the handler responds with.\<close>

record url_check_result =
  url :: jsval
  "structure" :: structure_result
  safety :: safety_result
  redirects :: redirect_result

section \<open>The outside world\<close>

text \<open>
  The three kinds of request the server issues: the submission to the scanning service,
  the request for a report, and the plain request to a target server.
\<close>

datatype request =
    Scan string
  | Report string
  | HttpGet jsval

text \<open>
  What the report carries. The code reads three properties of it; each may be absent.
\<close>

record report_data =
  response_code :: "int option"
  rd_positives :: "int option"
  rd_total :: "int option"

text \<open>
  A response as the code reads it: the status, the body (\<open>None\<close> for a body that is
  \<open>null\<close>, on which a property read throws) and the \<open>location\<close> header.
\<close>

record response =
  resp_status :: int
  resp_data :: "report_data option"
  resp_location :: "string option"

text \<open>A request either throws (network failure, timeout, rejected status) or answers.\<close>

datatype outcome =
    Rejected string
  | Fulfilled response

text \<open>
  The environment the server runs in. \<open>net\<close> answers a request, given every request
  issued before it, and says how many milliseconds the answer took; a request that runs
  into its timeout of 5000 ms is one that is rejected. \<open>url_parse\<close> is
  \<open>new URL(s)\<close>: the host name, or \<open>None\<close> when the constructor throws.
  \<open>url_resolve loc base\<close> is \<open>new URL(loc, base).toString()\<close>.
\<close>

record env =
  net :: "request list \<Rightarrow> request \<Rightarrow> outcome \<times> nat"
  url_parse :: "string \<Rightarrow> string option"
  url_resolve :: "string \<Rightarrow> string \<Rightarrow> string option"

text \<open>An entry of the cache: \<open>{data, timestamp}\<close>.\<close>

record 'a cache_entry =
  data :: 'a
  timestamp :: int

text \<open>
  The state of the process. The source keeps one \<open>Map\<close>, keyed by \<open>`safety:${url}`\<close>
  and \<open>`redirect:${url}`\<close>; no key has both prefixes, so the map is kept here as its two
  halves, each keyed by the string that follows the prefix. \<open>now\<close> is what \<open>Date.now()\<close>
  returns, \<open>log\<close> the requests issued so far, oldest first.
\<close>

record world =
  safety_cache :: "string \<rightharpoonup> safety_result cache_entry"
  redirect_cache :: "string \<rightharpoonup> redirect_result cache_entry"
  now :: int
  log :: "request list"

definition CACHE_TTL :: int where
  "CACHE_TTL = 24 * 60 * 60 * 1000"

text \<open>Awaiting a request: the answer arrives, time has passed, the request is on record.\<close>

definition http :: "env \<Rightarrow> request \<Rightarrow> world \<Rightarrow> outcome \<times> world" where
  "http E r w =
     (case net E (log w) r of
        (out, dt) \<Rightarrow> (out, w\<lparr>now := now w + int dt, log := log w @ [r]\<rparr>))"

text \<open>\<open>await new Promise(resolve => setTimeout(resolve, ms))\<close>.\<close>

definition sleep :: "int \<Rightarrow> world \<Rightarrow> world" where
  "sleep ms w = w\<lparr>now := now w + ms\<rparr>"

section \<open>checkUrlSafety\<close>

text \<open>\<open>x || 0\<close> on a number that may be absent.\<close>

definition or0 :: "int option \<Rightarrow> int" where
  "or0 x = (case x of None \<Rightarrow> 0 | Some n \<Rightarrow> if n = 0 then 0 else n)"

text \<open>
  The message of the \<open>TypeError\<close> that reading a property of \<open>null\<close> throws; the
  property name stands between single quotes, character \<open>0x27\<close>.
\<close>

definition type_error :: string where
  "type_error =
     ''Cannot read properties of null (reading '' @ [CHR 0x27] @ ''response_code''
       @ [CHR 0x27] @ '')''"

text \<open>
  The polling loop, \<open>for (let i = 0; i < 5; i++)\<close>, by the number of attempts left.
  \<open>Inl\<close> is an exception on its way to the \<open>catch\<close>.
\<close>

fun poll_report :: "env \<Rightarrow> jsval \<Rightarrow> nat \<Rightarrow> world \<Rightarrow> (string + safety_result) \<times> world" where
  "poll_report E u 0 w =
     (Inr \<lparr>status = ''error'', message = Some ''No scan results available'',
           positives = None, total_scans = None\<rparr>, w)"
| "poll_report E u (Suc n) w =
     (case http E (Report (to_string u)) w of
        (Rejected m, w1) \<Rightarrow> (Inl m, w1)
      | (Fulfilled reportResponse, w1) \<Rightarrow>
          (case resp_data reportResponse of
             None \<Rightarrow> (Inl type_error, w1)
           | Some reportData \<Rightarrow>
               if response_code reportData = Some 1 then
                 (let result = \<lparr>status = (if rd_positives reportData = Some 0 then ''safe'' else ''unsafe''),
                                message = None,
                                positives = Some (or0 (rd_positives reportData)),
                                total_scans = Some (or0 (rd_total reportData))\<rparr>
                  in (Inr result,
                      w1\<lparr>safety_cache := (safety_cache w1)(to_string u \<mapsto> \<lparr>data = result, timestamp = now w1\<rparr>)\<rparr>))
               else poll_report E u n (sleep 1000 w1)))"

text \<open>The body of the \<open>try\<close>: the submission, then the polling loop.\<close>

definition scan_try :: "env \<Rightarrow> jsval \<Rightarrow> world \<Rightarrow> (string + safety_result) \<times> world" where
  "scan_try E u w =
     (case http E (Scan (to_string u)) w of
        (Rejected m, w1) \<Rightarrow> (Inl m, w1)
      | (Fulfilled scanResponse, w1) \<Rightarrow>
          if resp_status scanResponse \<noteq> 200 then
            (Inr \<lparr>status = ''error'',
                  message = Some (''API error: '' @ string_of_int (resp_status scanResponse)),
                  positives = None, total_scans = None\<rparr>, w1)
          else poll_report E u 5 w1)"

text \<open>The \<open>try\<close> with its \<open>catch\<close>.\<close>

definition scan :: "env \<Rightarrow> jsval \<Rightarrow> world \<Rightarrow> safety_result \<times> world" where
  "scan E u w =
     (case scan_try E u w of
        (Inl m, w1) \<Rightarrow> (\<lparr>status = ''error'', message = Some m, positives = None, total_scans = None\<rparr>, w1)
      | (Inr result, w1) \<Rightarrow> (result, w1))"

definition checkUrlSafety :: "env \<Rightarrow> jsval \<Rightarrow> world \<Rightarrow> safety_result \<times> world" where
  "checkUrlSafety E u w =
     (case safety_cache w (to_string u) of
        Some cached \<Rightarrow>
          if now w - timestamp cached < CACHE_TTL then (data cached, w)
          else scan E u (w\<lparr>safety_cache := (safety_cache w)(to_string u := None)\<rparr>)
      | None \<Rightarrow> scan E u w)"

section \<open>checkRedirects\<close>

text \<open>
  The \<open>while\<close> loop. An absent \<open>location\<close> header is \<open>undefined\<close>, which is falsy as the
  empty string is.
\<close>

function follow ::
  "env \<Rightarrow> string \<Rightarrow> jsval list \<Rightarrow> int list \<Rightarrow> response \<Rightarrow> world
     \<Rightarrow> (string + jsval list \<times> int list) \<times> world" where
  "follow E currentUrl redirectChain statusCodes resp w =
     (case resp_location resp of
        None \<Rightarrow> (Inr (redirectChain, statusCodes), w)
      | Some location \<Rightarrow>
          if resp_status resp \<ge> 300 \<and> resp_status resp < 400 \<and> location \<noteq> []
             \<and> length redirectChain \<le> 3 then
            (case url_resolve E location currentUrl of
               None \<Rightarrow> (Inl ''Invalid URL'', w)
             | Some nextUrl \<Rightarrow>
                 (case http E (HttpGet (JStr nextUrl)) w of
                    (Rejected m, w1) \<Rightarrow> (Inl m, w1)
                  | (Fulfilled resp1, w1) \<Rightarrow>
                      follow E nextUrl (redirectChain @ [JStr nextUrl])
                        (statusCodes @ [resp_status resp1]) resp1 w1))
          else (Inr (redirectChain, statusCodes), w))"
  by pat_completeness auto
termination
  by (relation "measure (\<lambda>(E, currentUrl, redirectChain, statusCodes, resp, w). 4 - length redirectChain)") auto

text \<open>
  The first request and the loop: the chain and the status codes, or an exception.

  Both requests are \<open>axiosInstance.get\<close>, on the instance created with
  \<open>maxRedirects: 3\<close> and \<open>validateStatus: () => true\<close>. What \<open>net\<close> gives for an
  \<open>HttpGet\<close> is the outcome of that call as the program sees it. The definitions here
  put no condition on it, so they cover every answer the call could give; the
  instance of the source is narrower, since with \<open>maxRedirects: 3\<close> it follows an
  answer in the 3xx range that has a \<open>location\<close> by itself and rejects after three
  of them. \<open>axios_follows\<close> below says that of an environment.
\<close>

definition traverse :: "env \<Rightarrow> jsval \<Rightarrow> world \<Rightarrow> (string + jsval list \<times> int list) \<times> world" where
  "traverse E u w =
     (case http E (HttpGet u) w of
        (Rejected m, w1) \<Rightarrow> (Inl m, w1)
      | (Fulfilled resp, w1) \<Rightarrow> follow E (to_string u) [u] [resp_status resp] resp w1)"

text \<open>The rest of the \<open>try\<close>: the verdict on the final URL, the result, the write to the cache.\<close>

definition classify :: "env \<Rightarrow> jsval \<Rightarrow> jsval list \<Rightarrow> int list \<Rightarrow> world \<Rightarrow> redirect_result \<times> world" where
  "classify E u redirectChain statusCodes w =
     (case (if length redirectChain > 1 then
              (case checkUrlSafety E (last redirectChain) w of
                 (finalUrlSafety, w1) \<Rightarrow>
                   (let isFinalMalicious =
                          (status finalUrlSafety = ''unsafe'' \<and>
                           (case positives finalUrlSafety of None \<Rightarrow> False | Some p \<Rightarrow> p > 0))
                    in (\<lparr>r_status = (if isFinalMalicious then ''suspicious'' else ''clean''),
                         r_message = None,
                         redirect_chain = redirectChain,
                         status_codes = statusCodes,
                         final_url_safety = finalUrlSafety\<rparr>, w1)))
            else
              (\<lparr>r_status = ''clean'',
                r_message = None,
                redirect_chain = redirectChain,
                status_codes = statusCodes,
                final_url_safety = \<lparr>status = ''no_redirect'', message = None,
                                     positives = None, total_scans = None\<rparr>\<rparr>, w)) of
        (result, w2) \<Rightarrow>
          (result,
           w2\<lparr>redirect_cache := (redirect_cache w2)(to_string u \<mapsto> \<lparr>data = result, timestamp = now w2\<rparr>)\<rparr>))"

text \<open>The \<open>try\<close> with its \<open>catch\<close>.\<close>

definition resolve :: "env \<Rightarrow> jsval \<Rightarrow> world \<Rightarrow> redirect_result \<times> world" where
  "resolve E u w =
     (case traverse E u w of
        (Inl m, w1) \<Rightarrow>
          (\<lparr>r_status = ''error'',
            r_message = Some m,
            redirect_chain = [u],
            status_codes = [],
            final_url_safety = \<lparr>status = ''error'', message = None,
                                 positives = None, total_scans = None\<rparr>\<rparr>, w1)
      | (Inr (redirectChain, statusCodes), w1) \<Rightarrow> classify E u redirectChain statusCodes w1)"

definition checkRedirects :: "env \<Rightarrow> jsval \<Rightarrow> world \<Rightarrow> redirect_result \<times> world" where
  "checkRedirects E u w =
     (case redirect_cache w (to_string u) of
        Some cached \<Rightarrow>
          if now w - timestamp cached < CACHE_TTL then (data cached, w)
          else resolve E u (w\<lparr>redirect_cache := (redirect_cache w)(to_string u := None)\<rparr>)
      | None \<Rightarrow> resolve E u w)"

section \<open>The handler of POST /check-urls\<close>

definition validateUrlStructure :: "env \<Rightarrow> jsval \<Rightarrow> structure_result" where
  "validateUrlStructure E u =
     (case url_parse E (to_string u) of
        Some hostname \<Rightarrow>
          \<lparr>v_status = ''valid'', v_domain = Some hostname, v_message = None,
           v_redirect_chain = None, v_status_codes = None, v_final_url_safety = None\<rparr>
      | None \<Rightarrow>
          \<lparr>v_status = ''invalid'', v_domain = None, v_message = Some ''Invalid URL format'',
           v_redirect_chain = Some [u], v_status_codes = Some [],
           v_final_url_safety = Some \<lparr>status = ''invalid'', message = None,
                                      positives = None, total_scans = None\<rparr>\<rparr>)"

text \<open>
  Concurrency. The tasks of a \<open>Promise.all\<close> are started in the order of the array and
  complete in an order the program does not control; the value of \<open>Promise.all\<close> holds
  the value of the i-th task at index i. The completion order is a parameter here: a
  schedule lists the indices of the tasks in the order in which they run to completion,
  each on the state its predecessor left. A task is run whole, as one step: the model
  does not interleave two tasks between their requests.

  \<open>settle\<close> runs the tasks of a schedule, each value going to the slot of its index.
  \<open>promise_all\<close> is fulfilled with the values once every slot is filled, and stays
  pending (\<open>None\<close>) when the schedule leaves a task out.
\<close>

fun settle ::
  "nat list \<Rightarrow> (world \<Rightarrow> 'a \<times> world) list \<Rightarrow> 'a option list \<Rightarrow> world \<Rightarrow> 'a option list \<times> world" where
  "settle [] tasks slots w = (slots, w)"
| "settle (i # sched) tasks slots w =
     (if i < length tasks then
        (case (tasks ! i) w of (v, w1) \<Rightarrow> settle sched tasks (slots[i := Some v]) w1)
      else settle sched tasks slots w)"

definition promise_all ::
  "nat list \<Rightarrow> (world \<Rightarrow> 'a \<times> world) list \<Rightarrow> world \<Rightarrow> 'a list option \<times> world" where
  "promise_all sched tasks w =
     (case settle sched tasks (replicate (length tasks) None) w of
        (slots, w1) \<Rightarrow> (those slots, w1))"

text \<open>
  \<open>Promise.all([checkUrlSafety(url), checkRedirects(url)])\<close>: two tasks, of which either
  may complete first.
\<close>

definition promise_both ::
  "bool \<Rightarrow> (world \<Rightarrow> 'a \<times> world) \<Rightarrow> (world \<Rightarrow> 'b \<times> world) \<Rightarrow> world \<Rightarrow> ('a \<times> 'b) \<times> world" where
  "promise_both first_wins f g w =
     (if first_wins then
        (case f w of (a, w1) \<Rightarrow> (case g w1 of (b, w2) \<Rightarrow> ((a, b), w2)))
      else
        (case g w of (b, w1) \<Rightarrow> (case f w1 of (a, w2) \<Rightarrow> ((a, b), w2))))"

text \<open>The callback of \<open>urls.map\<close>: the task of one URL.\<close>

definition check_one :: "env \<Rightarrow> bool \<Rightarrow> jsval \<Rightarrow> world \<Rightarrow> url_check_result \<times> world" where
  "check_one E first_wins u w =
     (let vs = validateUrlStructure E u in
      if v_status vs = ''invalid'' then
        (\<lparr>url = u,
          structure = vs,
          safety = \<lparr>status = ''error'', message = Some ''Invalid URL'',
                    positives = None, total_scans = None\<rparr>,
          redirects = \<lparr>r_status = ''error'',
                       r_message = Some ''Invalid URL'',
                       redirect_chain = [u],
                       status_codes = [],
                       final_url_safety = \<lparr>status = ''invalid'', message = None,
                                            positives = None, total_scans = None\<rparr>\<rparr>\<rparr>, w)
      else
        (case promise_both first_wins (checkUrlSafety E u) (checkRedirects E u) w of
           ((sr, rr), w1) \<Rightarrow>
             (\<lparr>url = u, structure = vs, safety = sr, redirects = rr\<rparr>, w1)))"

text \<open>What the handler sends: \<open>res.status(400).json({error})\<close> or \<open>res.json(results)\<close>.\<close>

datatype http_response =
    BadRequest string
  | Ok "url_check_result list"

text \<open>
  The schedule of a request: the completion order of the tasks of the URLs, and for
  the task at each index whether its safety check completes before its redirect check.
\<close>

record schedule =
  outer :: "nat list"
  safety_first :: "nat \<Rightarrow> bool"

text \<open>
  The handler, on the value of \<open>req.body.urls\<close>. The response is \<open>None\<close> while the
  outer \<open>Promise.all\<close> is pending.
\<close>

definition check_urls ::
  "env \<Rightarrow> schedule \<Rightarrow> jsval \<Rightarrow> world \<Rightarrow> http_response option \<times> world" where
  "check_urls E S urls w =
     (if \<not> truthy urls \<or> \<not> isArray urls then
        (Some (BadRequest ''Invalid input: URLs must be an array''), w)
      else
        (case urls of
           JArr us \<Rightarrow>
             (case promise_all (outer S)
                     (map (\<lambda>(i, u). check_one E (safety_first S i) u) (zip [0..<length us] us)) w of
                (results, w1) \<Rightarrow> (map_option Ok results, w1))
         | _ \<Rightarrow> (None, w)))"

section \<open>Notions used in the statements\<close>

declare follow.simps [simp del]

text \<open>The fresh entry the cache holds for a URL, if it holds one.\<close>

definition safety_hit :: "world \<Rightarrow> jsval \<Rightarrow> safety_result option" where
  "safety_hit w u =
     (case safety_cache w (to_string u) of
        Some cached \<Rightarrow> if now w - timestamp cached < CACHE_TTL then Some (data cached) else None
      | None \<Rightarrow> None)"

definition redirect_hit :: "world \<Rightarrow> jsval \<Rightarrow> redirect_result option" where
  "redirect_hit w u =
     (case redirect_cache w (to_string u) of
        Some cached \<Rightarrow> if now w - timestamp cached < CACHE_TTL then Some (data cached) else None
      | None \<Rightarrow> None)"

text \<open>
  What holds of every result that \<open>checkRedirects\<close> stores: it is not an error, its chain
  has between one and four URLs, and it is suspicious exactly when a redirect occurred
  and the final URL came back unsafe with a positive count.
\<close>

definition well_formed :: "redirect_result \<Rightarrow> bool" where
  "well_formed r =
     (1 \<le> length (redirect_chain r) \<and> length (redirect_chain r) \<le> 4 \<and>
      (r_status r = ''suspicious'' \<or> r_status r = ''clean'') \<and>
      ((r_status r = ''suspicious'') =
         (length (redirect_chain r) > 1 \<and> status (final_url_safety r) = ''unsafe'' \<and>
          (case positives (final_url_safety r) of None \<Rightarrow> False | Some p \<Rightarrow> p > 0))))"

text \<open>
  The states of a running server: it starts with an empty cache, time passes, and the
  two checks are called, on any URL, any number of times.
\<close>

inductive reachable :: "env \<Rightarrow> world \<Rightarrow> bool" for E :: env where
  start: "reachable E \<lparr>safety_cache = Map.empty, redirect_cache = Map.empty, now = t, log = []\<rparr>"
| tick: "reachable E w \<Longrightarrow> 0 \<le> d \<Longrightarrow> reachable E (w\<lparr>now := now w + d\<rparr>)"
| safety_call: "reachable E w \<Longrightarrow> reachable E (snd (checkUrlSafety E u w))"
| redirect_call: "reachable E w \<Longrightarrow> reachable E (snd (checkRedirects E u w))"

text \<open>
  The environments in which \<open>axiosInstance.get\<close> behaves as the instance of the source
  does (lines 74 to 78, \<open>maxRedirects: 3\<close>): a redirect with a \<open>location\<close> is followed
  inside the call, so the call is never fulfilled with one. It is fulfilled with the
  answer that ends the redirects, or rejected, with
  \<open>Maximum number of redirects exceeded\<close> after the third.
\<close>

definition axios_follows :: "env \<Rightarrow> bool" where
  "axios_follows E =
     (\<forall>h v resp dt. net E h (HttpGet v) = (Fulfilled resp, dt) \<longrightarrow>
        \<not> (resp_status resp \<ge> 300 \<and> resp_status resp < 400 \<and>
           (\<exists>location. resp_location resp = Some location \<and> location \<noteq> [])))"

text \<open>The result of the branch \<open>// No redirects\<close>.\<close>

definition no_redirect_result :: "redirect_result \<Rightarrow> bool" where
  "no_redirect_result r =
     (r_status r = ''clean'' \<and> length (redirect_chain r) = 1 \<and>
      final_url_safety r = \<lparr>status = ''no_redirect'', message = None,
                              positives = None, total_scans = None\<rparr>)"

text \<open>
  The next \<open>n\<close> requests for the report of \<open>k\<close>, issued after the requests \<open>h\<close>, are
  all answered, and none of the answers marks the report complete.
\<close>

fun polls_incomplete :: "env \<Rightarrow> string \<Rightarrow> nat \<Rightarrow> request list \<Rightarrow> bool" where
  "polls_incomplete E k 0 h = True"
| "polls_incomplete E k (Suc n) h =
     (case fst (net E h (Report k)) of
        Rejected m \<Rightarrow> False
      | Fulfilled resp \<Rightarrow>
          (case resp_data resp of
             None \<Rightarrow> False
           | Some rd \<Rightarrow> response_code rd \<noteq> Some 1 \<and> polls_incomplete E k n (h @ [Report k])))"

text \<open>The number of submissions to the scanning service among the requests issued.\<close>

fun is_submission :: "request \<Rightarrow> bool" where
  "is_submission (Scan s) = True"
| "is_submission r = False"

definition submissions :: "request list \<Rightarrow> nat" where
  "submissions h = length (filter is_submission h)"

text \<open>
  Following the specification's words, "the chain, whatever was collected so far": the
  URLs pushed on the chain up to the point where the traversal ends, whether it ends
  with an exception or not.
\<close>

function chain_so_far :: "env \<Rightarrow> string \<Rightarrow> jsval list \<Rightarrow> response \<Rightarrow> world \<Rightarrow> jsval list" where
  "chain_so_far E currentUrl redirectChain resp w =
     (case resp_location resp of
        None \<Rightarrow> redirectChain
      | Some location \<Rightarrow>
          if resp_status resp \<ge> 300 \<and> resp_status resp < 400 \<and> location \<noteq> []
             \<and> length redirectChain \<le> 3 then
            (case url_resolve E location currentUrl of
               None \<Rightarrow> redirectChain
             | Some nextUrl \<Rightarrow>
                 (case http E (HttpGet (JStr nextUrl)) w of
                    (Rejected m, w1) \<Rightarrow> redirectChain @ [JStr nextUrl]
                  | (Fulfilled resp1, w1) \<Rightarrow>
                      chain_so_far E nextUrl (redirectChain @ [JStr nextUrl]) resp1 w1))
          else redirectChain)"
  by pat_completeness auto
termination
  by (relation "measure (\<lambda>(E, currentUrl, redirectChain, resp, w). 4 - length redirectChain)") auto

declare chain_so_far.simps [simp del]

definition chain_collected :: "env \<Rightarrow> jsval \<Rightarrow> world \<Rightarrow> jsval list" where
  "chain_collected E u w =
     (case http E (HttpGet u) w of
        (Rejected m, w1) \<Rightarrow> [u]
      | (Fulfilled resp, w1) \<Rightarrow> chain_so_far E (to_string u) [u] resp w1)"

text \<open>Following the specification's words, "a sequence of strings".\<close>

fun is_string :: "jsval \<Rightarrow> bool" where
  "is_string (JStr s) = True"
| "is_string v = False"

fun is_string_seq :: "jsval \<Rightarrow> bool" where
  "is_string_seq (JArr xs) = list_all is_string xs"
| "is_string_seq v = False"

section \<open>Example environments\<close>

text \<open>
  A stand-in for the URL parser, enough for the examples: a string parses when it is
  \<open>http://\<close> followed by a host, and a location resolves to itself.
\<close>

definition example_parse :: "string \<Rightarrow> string option" where
  "example_parse s = (if take 7 s = ''http://'' \<and> 7 < length s then Some (drop 7 s) else None)"

text \<open>
  An environment that answers the n-th request with the n-th entry of a script, and
  lets every later request time out.
\<close>

definition scripted :: "(outcome \<times> nat) list \<Rightarrow> env" where
  "scripted script =
     \<lparr>net = (\<lambda>h r. if length h < length script then script ! length h
                    else (Rejected ''timeout of 5000ms exceeded'', 5000)),
      url_parse = example_parse,
      url_resolve = (\<lambda>location base. Some location)\<rparr>"

definition world0 :: world where
  "world0 = \<lparr>safety_cache = Map.empty, redirect_cache = Map.empty, now = 0, log = []\<rparr>"

definition answer :: "int \<Rightarrow> report_data option \<Rightarrow> string option \<Rightarrow> outcome \<times> nat" where
  "answer st d l = (Fulfilled \<lparr>resp_status = st, resp_data = d, resp_location = l\<rparr>, 120)"

definition report :: "int option \<Rightarrow> int option \<Rightarrow> int option \<Rightarrow> outcome \<times> nat" where
  "report c p t = answer 200 (Some \<lparr>response_code = c, rd_positives = p, rd_total = t\<rparr>) None"

definition url_a :: jsval where
  "url_a = JStr ''http://a.example''"

definition url_b :: jsval where
  "url_b = JStr ''http://b.example''"

text \<open>The tasks complete in the order of the array, each safety check before its redirect check.\<close>

definition in_order :: "nat \<Rightarrow> schedule" where
  "in_order n = \<lparr>outer = [0..<n], safety_first = (\<lambda>i. True)\<rparr>"

text \<open>The submission is accepted; the report is complete and has no \<open>positives\<close> property.\<close>

definition env_no_positives :: env where
  "env_no_positives = scripted [answer 200 None None, report (Some 1) None (Some 70)]"

text \<open>
  Every target answers with a redirect; the scanning service is unreachable. The
  requests are answered hop by hop here, as an instance that does not follow redirects
  would be answered.
\<close>

definition env_loop :: env where
  "env_loop =
     \<lparr>net = (\<lambda>h r. case r of
                      HttpGet v \<Rightarrow> answer 302 None (Some ''http://loop.example/'')
                    | _ \<Rightarrow> (Rejected ''Network Error'', 10)),
      url_parse = example_parse,
      url_resolve = (\<lambda>location base. Some location)\<rparr>"

text \<open>One redirect, to a URL that three engines flag; answered hop by hop as well.\<close>

definition env_flagged :: env where
  "env_flagged = scripted [answer 302 None (Some ''http://b.example''), answer 200 None None,
                           answer 200 None None, report (Some 1) (Some 3) (Some 70)]"

text \<open>The submission is accepted; five reports come back, none complete.\<close>

definition env_pending :: env where
  "env_pending = scripted [answer 200 None None,
     report (Some 0) None None, report (Some 0) None None, report (Some 0) None None,
     report (Some 0) None None, report (Some 0) None None]"

text \<open>
  A URL that redirects to another, whose scan is accepted and never completes. The
  instance follows the redirect, so the request is fulfilled with the 200 of the
  target.
\<close>

definition env_followed :: env where
  "env_followed =
     \<lparr>net = (\<lambda>h r. case r of
                      HttpGet v \<Rightarrow> answer 200 None None
                    | Scan k \<Rightarrow> answer 200 None None
                    | Report k \<Rightarrow> report (Some 0) None None),
      url_parse = example_parse,
      url_resolve = (\<lambda>location base. Some location)\<rparr>"

text \<open>A URL behind more than three redirects: the instance gives up and the request is rejected.\<close>

definition env_too_many_redirects :: env where
  "env_too_many_redirects =
     \<lparr>net = (\<lambda>h r. (Rejected ''Maximum number of redirects exceeded'', 300)),
      url_parse = example_parse,
      url_resolve = (\<lambda>location base. Some location)\<rparr>"

text \<open>The submission is accepted; the first report is complete and clean.\<close>

definition env_clean :: env where
  "env_clean = scripted [answer 200 None None, report (Some 1) (Some 0) (Some 70)]"

text \<open>A state whose entries for \<open>url_a\<close> were stored at time 0, read one millisecond past the TTL.\<close>

definition world_stale :: world where
  "world_stale =
     \<lparr>safety_cache = [''http://a.example'' \<mapsto>
          \<lparr>data = \<lparr>status = ''safe'', message = None, positives = Some 0, total_scans = Some 70\<rparr>,
           timestamp = 0\<rparr>],
      redirect_cache = [''http://a.example'' \<mapsto>
          \<lparr>data = \<lparr>r_status = ''clean'', r_message = None, redirect_chain = [url_a],
                    status_codes = [200],
                    final_url_safety = \<lparr>status = ''no_redirect'', message = None,
                                         positives = None, total_scans = None\<rparr>\<rparr>,
           timestamp = 0\<rparr>],
      now = 86400001,
      log = []\<rparr>"

section \<open>Evaluation\<close>

lemmas run = checkUrlSafety_def checkRedirects_def scan_def scan_try_def resolve_def traverse_def
  classify_def http_def sleep_def or0_def Let_def follow.simps
  scripted_def world0_def answer_def report_def url_a_def url_b_def example_parse_def CACHE_TTL_def

lemma poll_report_5:
  "poll_report E u 5 w = poll_report E u (Suc (Suc (Suc (Suc (Suc 0))))) w"
  by (simp add: eval_nat_numeral)

section \<open>What a call does to the state\<close>

lemma http_effect:
  "http E r w = (out, w1) \<Longrightarrow>
     log w1 = log w @ [r] \<and> safety_cache w1 = safety_cache w \<and> redirect_cache w1 = redirect_cache w"
  by (auto simp: http_def split: prod.splits)

lemma poll_report_effect:
  "poll_report E u n w = (res, w1) \<Longrightarrow>
     redirect_cache w1 = redirect_cache w \<and>
     (\<exists>k. log w1 = log w @ replicate k (Report (to_string u))) \<and>
     (case res of
        Inl m \<Rightarrow> safety_cache w1 = safety_cache w
      | Inr r \<Rightarrow>
          if status r = ''error'' then safety_cache w1 = safety_cache w
          else safety_cache w1 = (safety_cache w)(to_string u \<mapsto> \<lparr>data = r, timestamp = now w1\<rparr>))"
proof (induction n arbitrary: w)
  case 0
  then show ?case by auto
next
  case (Suc n)
  obtain out w2 where h: "http E (Report (to_string u)) w = (out, w2)"
    by (cases "http E (Report (to_string u)) w")
  note e = http_effect [OF h]
  show ?case
  proof (cases out)
    case (Rejected m)
    with Suc.prems h e show ?thesis
      by (auto intro: exI [of _ 1])
  next
    case (Fulfilled resp)
    show ?thesis
    proof (cases "resp_data resp")
      case None
      with Suc.prems h e Fulfilled show ?thesis
        by (auto intro: exI [of _ 1])
    next
      case (Some rd)
      show ?thesis
      proof (cases "response_code rd = Some 1")
        case True
        with Suc.prems h e Fulfilled Some show ?thesis
          by (auto simp: Let_def intro: exI [of _ 1])
      next
        case False
        with Suc.prems h Fulfilled Some
        have rec: "poll_report E u n (sleep 1000 w2) = (res, w1)" by simp
        from Suc.IH [OF rec] obtain k where
          k: "log w1 = log (sleep 1000 w2) @ replicate k (Report (to_string u))" by blast
        have "log w1 = log w @ replicate (Suc k) (Report (to_string u))"
          using k e by (simp add: sleep_def replicate_app_Cons_same)
        moreover have "safety_cache (sleep 1000 w2) = safety_cache w"
          "redirect_cache (sleep 1000 w2) = redirect_cache w"
          using e by (simp_all add: sleep_def)
        ultimately show ?thesis
          using Suc.IH [OF rec] by (auto split: sum.splits simp del: replicate_Suc)
      qed
    qed
  qed
qed

lemma scan_effect:
  "scan E u w = (r, w1) \<Longrightarrow>
     redirect_cache w1 = redirect_cache w \<and>
     (\<exists>k. log w1 = log w @ Scan (to_string u) # replicate k (Report (to_string u))) \<and>
     (if status r = ''error'' then safety_cache w1 = safety_cache w
      else safety_cache w1 = (safety_cache w)(to_string u \<mapsto> \<lparr>data = r, timestamp = now w1\<rparr>))"
proof -
  assume a: "scan E u w = (r, w1)"
  obtain out w2 where h: "http E (Scan (to_string u)) w = (out, w2)"
    by (cases "http E (Scan (to_string u)) w")
  note e = http_effect [OF h]
  show ?thesis
  proof (cases out)
    case (Rejected m)
    with a h e show ?thesis
      by (auto simp: scan_def scan_try_def intro: exI [of _ 0])
  next
    case (Fulfilled resp)
    show ?thesis
    proof (cases "resp_status resp = 200")
      case False
      with a h e Fulfilled show ?thesis
        by (auto simp: scan_def scan_try_def intro: exI [of _ 0])
    next
      case True
      obtain res w3 where p: "poll_report E u 5 w2 = (res, w3)"
        by (cases "poll_report E u 5 w2")
      from poll_report_effect [OF p] a h e Fulfilled True p show ?thesis
        by (cases res) (auto simp: scan_def scan_try_def)
    qed
  qed
qed

lemma checkUrlSafety_hit:
  "safety_hit w u = Some r \<Longrightarrow> checkUrlSafety E u w = (r, w)"
  by (auto simp: safety_hit_def checkUrlSafety_def split: option.splits if_splits)

lemma checkUrlSafety_miss:
  "safety_hit w u = None \<Longrightarrow>
     checkUrlSafety E u w = scan E u (w\<lparr>safety_cache := (safety_cache w)(to_string u := None)\<rparr>)"
  by (auto simp: safety_hit_def checkUrlSafety_def fun_upd_idem split: option.splits if_splits)

lemma checkRedirects_hit:
  "redirect_hit w u = Some r \<Longrightarrow> checkRedirects E u w = (r, w)"
  by (auto simp: redirect_hit_def checkRedirects_def split: option.splits if_splits)

lemma checkRedirects_miss:
  "redirect_hit w u = None \<Longrightarrow>
     checkRedirects E u w = resolve E u (w\<lparr>redirect_cache := (redirect_cache w)(to_string u := None)\<rparr>)"
  by (auto simp: redirect_hit_def checkRedirects_def fun_upd_idem split: option.splits if_splits)

lemma checkUrlSafety_redirect_cache:
  "redirect_cache (snd (checkUrlSafety E u w)) = redirect_cache w"
proof (cases "safety_hit w u")
  case None
  obtain r w1 where s: "scan E u (w\<lparr>safety_cache := (safety_cache w)(to_string u := None)\<rparr>) = (r, w1)"
    by (cases "scan E u (w\<lparr>safety_cache := (safety_cache w)(to_string u := None)\<rparr>)")
  from scan_effect [OF s] show ?thesis
    by (simp add: checkUrlSafety_miss [OF None] s)
next
  case (Some r)
  then show ?thesis by (simp add: checkUrlSafety_hit)
qed


lemma follow_effect:
  "follow E cur chain codes resp w = (res, w1) \<Longrightarrow>
     safety_cache w1 = safety_cache w \<and> redirect_cache w1 = redirect_cache w \<and>
     (\<exists>rs. log w1 = log w @ rs)"
proof (induction E cur chain codes resp w rule: follow.induct)
  case (1 E cur chain codes resp w)
  show ?case
  proof (cases "resp_location resp")
    case None
    with "1.prems" show ?thesis by (simp add: follow.simps)
  next
    case (Some loc)
    show ?thesis
    proof (cases "resp_status resp \<ge> 300 \<and> resp_status resp < 400 \<and> loc \<noteq> [] \<and> length chain \<le> 3")
      case False
      with "1.prems" Some show ?thesis by (auto simp: follow.simps)
    next
      case True
      show ?thesis
      proof (cases "url_resolve E loc cur")
        case None
        with "1.prems" Some True show ?thesis by (simp add: follow.simps)
      next
        case nxt: (Some nextUrl)
        obtain out w2 where h: "http E (HttpGet (JStr nextUrl)) w = (out, w2)"
          by (cases "http E (HttpGet (JStr nextUrl)) w")
        note e = http_effect [OF h]
        show ?thesis
        proof (cases out)
          case (Rejected m)
          with "1.prems" Some True nxt h e show ?thesis by (simp add: follow.simps)
        next
          case (Fulfilled resp1)
          with "1.prems" Some True nxt h
          have rec: "follow E nextUrl (chain @ [JStr nextUrl]) (codes @ [resp_status resp1]) resp1 w2 = (res, w1)"
            by (simp add: follow.simps)
          have "safety_cache w1 = safety_cache w2 \<and> redirect_cache w1 = redirect_cache w2 \<and>
                (\<exists>rs. log w1 = log w2 @ rs)"
            using "1.IH" [OF Some _ nxt _ _ rec] True h Fulfilled by simp
          with e show ?thesis by auto
        qed
      qed
    qed
  qed
qed

lemma follow_chain:
  "follow E cur chain codes resp w = (Inr (chain1, codes1), w1) \<Longrightarrow>
     chain \<noteq> [] \<Longrightarrow> length chain \<le> 4 \<Longrightarrow>
     chain1 \<noteq> [] \<and> length chain1 \<le> 4 \<and> hd chain1 = hd chain"
proof (induction E cur chain codes resp w rule: follow.induct)
  case (1 E cur chain codes resp w)
  show ?case
  proof (cases "resp_location resp")
    case None
    with "1.prems" show ?thesis by (simp add: follow.simps)
  next
    case (Some loc)
    show ?thesis
    proof (cases "resp_status resp \<ge> 300 \<and> resp_status resp < 400 \<and> loc \<noteq> [] \<and> length chain \<le> 3")
      case False
      with "1.prems" Some show ?thesis by (auto simp: follow.simps)
    next
      case True
      show ?thesis
      proof (cases "url_resolve E loc cur")
        case None
        with "1.prems" Some True show ?thesis by (simp add: follow.simps)
      next
        case nxt: (Some nextUrl)
        obtain out w2 where h: "http E (HttpGet (JStr nextUrl)) w = (out, w2)"
          by (cases "http E (HttpGet (JStr nextUrl)) w")
        show ?thesis
        proof (cases out)
          case (Rejected m)
          with "1.prems" Some True nxt h show ?thesis by (simp add: follow.simps)
        next
          case (Fulfilled resp1)
          with "1.prems" Some True nxt h
          have rec: "follow E nextUrl (chain @ [JStr nextUrl]) (codes @ [resp_status resp1]) resp1 w2
                       = (Inr (chain1, codes1), w1)"
            by (simp add: follow.simps)
          have "chain1 \<noteq> [] \<and> length chain1 \<le> 4 \<and> hd chain1 = hd (chain @ [JStr nextUrl])"
            using "1.IH" [OF Some _ nxt _ _ rec] True h Fulfilled by simp
          with "1.prems" show ?thesis by simp
        qed
      qed
    qed
  qed
qed

lemma traverse_effect:
  "traverse E u w = (res, w1) \<Longrightarrow>
     safety_cache w1 = safety_cache w \<and> redirect_cache w1 = redirect_cache w \<and>
     (\<exists>rs. log w1 = log w @ HttpGet u # rs)"
proof -
  assume a: "traverse E u w = (res, w1)"
  obtain out w2 where h: "http E (HttpGet u) w = (out, w2)"
    by (cases "http E (HttpGet u) w")
  note e = http_effect [OF h]
  show ?thesis
  proof (cases out)
    case (Rejected m)
    with a h e show ?thesis by (auto simp: traverse_def)
  next
    case (Fulfilled resp)
    with a h have "follow E (to_string u) [u] [resp_status resp] resp w2 = (res, w1)"
      by (simp add: traverse_def)
    from follow_effect [OF this] e show ?thesis by auto
  qed
qed

lemma traverse_chain:
  "traverse E u w = (Inr (chain, codes), w1) \<Longrightarrow> 1 \<le> length chain \<and> length chain \<le> 4"
proof -
  assume a: "traverse E u w = (Inr (chain, codes), w1)"
  obtain out w2 where h: "http E (HttpGet u) w = (out, w2)"
    by (cases "http E (HttpGet u) w")
  show ?thesis
  proof (cases out)
    case (Rejected m)
    with a h show ?thesis by (simp add: traverse_def)
  next
    case (Fulfilled resp)
    with a h have "follow E (to_string u) [u] [resp_status resp] resp w2 = (Inr (chain, codes), w1)"
      by (simp add: traverse_def)
    from follow_chain [OF this] show ?thesis by (cases chain) auto
  qed
qed


lemma classify_effect:
  assumes "classify E u chain codes w = (r, w1)" and "1 \<le> length chain" and "length chain \<le> 4"
  shows "well_formed r \<and> redirect_chain r = chain \<and> status_codes r = codes \<and>
         redirect_cache w1 = (redirect_cache w)(to_string u \<mapsto> \<lparr>data = r, timestamp = now w1\<rparr>)"
proof (cases "length chain > 1")
  case True
  obtain fs w2 where c: "checkUrlSafety E (last chain) w = (fs, w2)"
    by (cases "checkUrlSafety E (last chain) w")
  have "redirect_cache w2 = redirect_cache w"
    using checkUrlSafety_redirect_cache [of E "last chain" w] c by simp
  with assms True c show ?thesis
    by (cases "status fs = ''unsafe'' \<and> (case positives fs of None \<Rightarrow> False | Some p \<Rightarrow> p > 0)")
       (auto simp: classify_def well_formed_def Let_def)
next
  case False
  with assms show ?thesis
    by (auto simp: classify_def well_formed_def)
qed

lemma resolve_effect:
  assumes "resolve E u w = (r, w1)"
  shows "(\<exists>m. fst (traverse E u w) = Inl m \<and>
            r = \<lparr>r_status = ''error'', r_message = Some m, redirect_chain = [u], status_codes = [],
                 final_url_safety = \<lparr>status = ''error'', message = None,
                                      positives = None, total_scans = None\<rparr>\<rparr> \<and>
            redirect_cache w1 = redirect_cache w) \<or>
         (well_formed r \<and>
          redirect_cache w1 = (redirect_cache w)(to_string u \<mapsto> \<lparr>data = r, timestamp = now w1\<rparr>))"
proof -
  obtain res w2 where t: "traverse E u w = (res, w2)"
    by (cases "traverse E u w")
  note e = traverse_effect [OF t]
  show ?thesis
  proof (cases res)
    case (Inl m)
    with assms t e show ?thesis by (auto simp: resolve_def)
  next
    case (Inr p)
    obtain chain codes where p: "p = (chain, codes)" by (cases p)
    from t Inr p have t': "traverse E u w = (Inr (chain, codes), w2)" by simp
    from assms t' have c: "classify E u chain codes w2 = (r, w1)" by (simp add: resolve_def)
    from classify_effect [OF c] traverse_chain [OF t'] e show ?thesis by simp
  qed
qed

lemma reachable_redirect_cache:
  "reachable E w \<Longrightarrow> redirect_cache w k = Some e \<Longrightarrow> well_formed (data e)"
proof (induction arbitrary: k e rule: reachable.induct)
  case (start t)
  then show ?case by simp
next
  case (tick w d)
  then show ?case by simp
next
  case (safety_call w u)
  then show ?case by (simp add: checkUrlSafety_redirect_cache)
next
  case (redirect_call w u)
  show ?case
  proof (cases "redirect_hit w u")
    case (Some r)
    with redirect_call show ?thesis by (simp add: checkRedirects_hit)
  next
    case None
    let ?w0 = "w\<lparr>redirect_cache := (redirect_cache w)(to_string u := None)\<rparr>"
    obtain r w1 where s: "resolve E u ?w0 = (r, w1)" by (cases "resolve E u ?w0")
    have w1: "snd (checkRedirects E u w) = w1"
      by (simp add: checkRedirects_miss [OF None] s)
    from resolve_effect [OF s] redirect_call.prems redirect_call.IH show ?thesis
      unfolding w1 by (auto split: if_splits)
  qed
qed

lemma checkRedirects_result:
  assumes "reachable E w" and "checkRedirects E u w = (r, w1)"
  shows "well_formed r \<or> (r_status r = ''error'' \<and> redirect_chain r = [u])"
proof (cases "redirect_hit w u")
  case (Some r')
  with assms(2) have "r' = r" by (simp add: checkRedirects_hit)
  with Some obtain e where "redirect_cache w (to_string u) = Some e" "data e = r"
    by (auto simp: redirect_hit_def split: option.splits if_splits)
  with reachable_redirect_cache [OF assms(1)] show ?thesis by blast
next
  case None
  with assms(2) have "resolve E u (w\<lparr>redirect_cache := (redirect_cache w)(to_string u := None)\<rparr>) = (r, w1)"
    by (simp add: checkRedirects_miss)
  from resolve_effect [OF this] show ?thesis by auto
qed

lemma poll_report_exhausted:
  "polls_incomplete E (to_string u) n (log w) \<Longrightarrow>
     \<exists>w1. poll_report E u n w =
            (Inr \<lparr>status = ''error'', message = Some ''No scan results available'',
                  positives = None, total_scans = None\<rparr>, w1) \<and>
          safety_cache w1 = safety_cache w \<and>
          log w1 = log w @ replicate n (Report (to_string u))"
proof (induction n arbitrary: w)
  case 0
  then show ?case by simp
next
  case (Suc n)
  obtain out dt where n: "net E (log w) (Report (to_string u)) = (out, dt)"
    by (cases "net E (log w) (Report (to_string u))")
  with Suc.prems obtain resp rd where
    out: "out = Fulfilled resp" and rd: "resp_data resp = Some rd"
    and code: "response_code rd \<noteq> Some 1"
    and rest: "polls_incomplete E (to_string u) n (log w @ [Report (to_string u)])"
    by (auto split: outcome.splits option.splits)
  define w2 where "w2 = w\<lparr>now := now w + int dt, log := log w @ [Report (to_string u)]\<rparr>"
  have h: "http E (Report (to_string u)) w = (Fulfilled resp, w2)"
    by (simp add: http_def n out w2_def)
  have "polls_incomplete E (to_string u) n (log (sleep 1000 w2))"
    using rest by (simp add: sleep_def w2_def)
  from Suc.IH [OF this] obtain w1 where
    "poll_report E u n (sleep 1000 w2) =
       (Inr \<lparr>status = ''error'', message = Some ''No scan results available'',
             positives = None, total_scans = None\<rparr>, w1)"
    "safety_cache w1 = safety_cache (sleep 1000 w2)"
    "log w1 = log (sleep 1000 w2) @ replicate n (Report (to_string u))"
    by blast
  then show ?case
    using h rd code by (simp add: sleep_def w2_def replicate_app_Cons_same)
qed

lemma checkUrlSafety_miss_log:
  assumes "safety_hit w u = None"
  shows "\<exists>k. log (snd (checkUrlSafety E u w)) =
               log w @ Scan (to_string u) # replicate k (Report (to_string u))"
proof -
  let ?w0 = "w\<lparr>safety_cache := (safety_cache w)(to_string u := None)\<rparr>"
  obtain r w1 where s: "scan E u ?w0 = (r, w1)" by (cases "scan E u ?w0")
  from scan_effect [OF s] show ?thesis
    by (simp add: checkUrlSafety_miss [OF assms] s)
qed

lemma submissions_reports [simp]:
  "submissions (h @ Scan k # replicate n (Report k')) = Suc (submissions h)"
  by (induction n) (simp_all add: submissions_def)

lemma checkUrlSafety_log:
  "\<exists>rs. log (snd (checkUrlSafety E u w)) = log w @ rs"
proof (cases "safety_hit w u")
  case None
  from checkUrlSafety_miss_log [OF this, of E] show ?thesis by blast
next
  case (Some r)
  then show ?thesis by (simp add: checkUrlSafety_hit)
qed

lemma resolve_log:
  assumes "resolve E u w = (r, w1)"
  shows "\<exists>rs. log w1 = log w @ HttpGet u # rs"
proof -
  obtain res w2 where t: "traverse E u w = (res, w2)"
    by (cases "traverse E u w")
  from traverse_effect [OF t] obtain rs where rs: "log w2 = log w @ HttpGet u # rs" by blast
  show ?thesis
  proof (cases res)
    case (Inl m)
    with assms t rs show ?thesis by (auto simp: resolve_def)
  next
    case (Inr p)
    obtain chain codes where p: "p = (chain, codes)" by (cases p)
    from assms t Inr p have c: "classify E u chain codes w2 = (r, w1)" by (simp add: resolve_def)
    show ?thesis
    proof (cases "length chain > 1")
      case True
      obtain fs w3 where s: "checkUrlSafety E (last chain) w2 = (fs, w3)"
        by (cases "checkUrlSafety E (last chain) w2")
      from checkUrlSafety_log [of E "last chain" w2] s obtain rs' where "log w3 = log w2 @ rs'"
        by auto
      with c True s rs show ?thesis by (auto simp: classify_def Let_def)
    next
      case False
      with c rs show ?thesis by (auto simp: classify_def)
    qed
  qed
qed

lemma http_redirect_cache:
  "http E r (w\<lparr>redirect_cache := c\<rparr>) =
     (case http E r w of (out, w1) \<Rightarrow> (out, w1\<lparr>redirect_cache := c\<rparr>))"
  by (simp add: http_def split: prod.splits)

lemma follow_redirect_cache:
  "follow E cur chain codes resp (w\<lparr>redirect_cache := c\<rparr>) =
     (case follow E cur chain codes resp w of (x, w1) \<Rightarrow> (x, w1\<lparr>redirect_cache := c\<rparr>))"
proof (induction E cur chain codes resp w rule: follow.induct)
  case (1 E cur chain codes resp w)
  show ?case
  proof (cases "resp_location resp")
    case None
    then show ?thesis by (simp add: follow.simps)
  next
    case (Some loc)
    show ?thesis
    proof (cases "resp_status resp \<ge> 300 \<and> resp_status resp < 400 \<and> loc \<noteq> [] \<and> length chain \<le> 3")
      case False
      with Some show ?thesis by (auto simp: follow.simps)
    next
      case True
      show ?thesis
      proof (cases "url_resolve E loc cur")
        case None
        with Some True show ?thesis by (simp add: follow.simps)
      next
        case nxt: (Some nextUrl)
        obtain out w2 where h: "http E (HttpGet (JStr nextUrl)) w = (out, w2)"
          by (cases "http E (HttpGet (JStr nextUrl)) w")
        show ?thesis
        proof (cases out)
          case (Rejected m)
          with Some True nxt h show ?thesis
            by (simp add: follow.simps [of _ _ chain] http_redirect_cache)
        next
          case (Fulfilled resp1)
          have "follow E nextUrl (chain @ [JStr nextUrl]) (codes @ [resp_status resp1]) resp1
                  (w2\<lparr>redirect_cache := c\<rparr>) =
                (case follow E nextUrl (chain @ [JStr nextUrl]) (codes @ [resp_status resp1]) resp1 w2 of
                   (x, w1) \<Rightarrow> (x, w1\<lparr>redirect_cache := c\<rparr>))"
            using "1.IH" [OF Some _ nxt _ _] True h Fulfilled by simp
          with Some True nxt h Fulfilled show ?thesis
            by (simp add: follow.simps [of _ _ chain] http_redirect_cache)
        qed
      qed
    qed
  qed
qed

lemma traverse_redirect_cache:
  "traverse E u (w\<lparr>redirect_cache := c\<rparr>) =
     (case traverse E u w of (x, w1) \<Rightarrow> (x, w1\<lparr>redirect_cache := c\<rparr>))"
  by (simp add: traverse_def http_redirect_cache follow_redirect_cache
           split: prod.splits outcome.splits)

lemma poll_report_redirect_cache:
  "poll_report E u n (w\<lparr>redirect_cache := c\<rparr>) =
     (case poll_report E u n w of (x, w1) \<Rightarrow> (x, w1\<lparr>redirect_cache := c\<rparr>))"
proof (induction n arbitrary: w)
  case 0
  show ?case by simp
next
  case (Suc n)
  have "sleep 1000 (v\<lparr>redirect_cache := c\<rparr>) = (sleep 1000 v)\<lparr>redirect_cache := c\<rparr>" for v
    by (simp add: sleep_def)
  then show ?case
    by (simp add: http_redirect_cache Suc.IH Let_def
             split: prod.splits outcome.splits option.splits)
qed

lemma checkUrlSafety_redirect_cache_indep:
  "checkUrlSafety E u (w\<lparr>redirect_cache := c\<rparr>) =
     (case checkUrlSafety E u w of (x, w1) \<Rightarrow> (x, w1\<lparr>redirect_cache := c\<rparr>))"
proof -
  have t: "scan_try E u (v\<lparr>redirect_cache := c\<rparr>) =
          (case scan_try E u v of (x, w1) \<Rightarrow> (x, w1\<lparr>redirect_cache := c\<rparr>))" for v
    by (simp add: scan_try_def http_redirect_cache poll_report_redirect_cache
             split: prod.splits outcome.splits)
  have s: "scan E u (v\<lparr>redirect_cache := c\<rparr>) =
          (case scan E u v of (x, w1) \<Rightarrow> (x, w1\<lparr>redirect_cache := c\<rparr>))" for v
    by (simp add: scan_def t split: prod.splits sum.splits)
  have swap: "w\<lparr>redirect_cache := c, safety_cache := m\<rparr> = w\<lparr>safety_cache := m, redirect_cache := c\<rparr>" for m
    by (cases w) simp
  show ?thesis
    by (simp add: checkUrlSafety_def s swap split: option.splits)
qed

section \<open>When the instance follows redirects itself\<close>

lemma axios_follows_followed: "axios_follows env_followed"
  by (auto simp: axios_follows_def env_followed_def answer_def)

lemma axios_follows_too_many: "axios_follows env_too_many_redirects"
  by (simp add: axios_follows_def env_too_many_redirects_def)

lemma axios_follows_down: "axios_follows (scripted [])"
  by (simp add: axios_follows_def scripted_def)

lemma follow_axios:
  assumes "axios_follows E" and "net E h (HttpGet v) = (Fulfilled resp, dt)"
  shows "follow E cur chain codes resp w = (Inr (chain, codes), w)"
  using assms by (auto simp: axios_follows_def follow.simps split: option.splits)

lemma traverse_axios:
  assumes "axios_follows E"
  shows "(\<exists>m w1. traverse E u w = (Inl m, w1) \<and> log w1 = log w @ [HttpGet u]) \<or>
         (\<exists>code w1. traverse E u w = (Inr ([u], [code]), w1) \<and> log w1 = log w @ [HttpGet u])"
proof -
  obtain out dt where n: "net E (log w) (HttpGet u) = (out, dt)"
    by (cases "net E (log w) (HttpGet u)")
  show ?thesis
  proof (cases out)
    case (Rejected m)
    with n show ?thesis by (simp add: traverse_def http_def)
  next
    case (Fulfilled resp)
    with n follow_axios [OF assms, of "log w" u resp dt] show ?thesis
      by (simp add: traverse_def http_def)
  qed
qed

lemma chain_collected_axios:
  assumes "axios_follows E"
  shows "chain_collected E u w = [u]"
proof -
  obtain out dt where n: "net E (log w) (HttpGet u) = (out, dt)"
    by (cases "net E (log w) (HttpGet u)")
  show ?thesis
  proof (cases out)
    case (Rejected m)
    with n show ?thesis by (simp add: chain_collected_def http_def)
  next
    case (Fulfilled resp)
    with n assms show ?thesis
      by (auto simp: chain_collected_def http_def axios_follows_def chain_so_far.simps
               split: option.splits)
  qed
qed

lemma resolve_axios:
  assumes "axios_follows E" and "resolve E u w = (r, w1)"
  shows "log w1 = log w @ [HttpGet u] \<and>
         ((r_status r = ''error'' \<and> redirect_cache w1 = redirect_cache w) \<or>
          (no_redirect_result r \<and>
           redirect_cache w1 = (redirect_cache w)(to_string u \<mapsto> \<lparr>data = r, timestamp = now w1\<rparr>)))"
  using traverse_axios [OF assms(1), of u w] traverse_effect [of E u w] assms(2)
  by (auto simp: resolve_def classify_def no_redirect_result_def)

lemma reachable_axios_cache:
  assumes "axios_follows E"
  shows "reachable E w \<Longrightarrow> redirect_cache w k = Some e \<Longrightarrow> no_redirect_result (data e)"
proof (induction arbitrary: k e rule: reachable.induct)
  case (start t)
  then show ?case by simp
next
  case (tick w d)
  then show ?case by simp
next
  case (safety_call w u)
  then show ?case by (simp add: checkUrlSafety_redirect_cache)
next
  case (redirect_call w u)
  show ?case
  proof (cases "redirect_hit w u")
    case (Some r)
    with redirect_call show ?thesis by (simp add: checkRedirects_hit)
  next
    case None
    let ?w0 = "w\<lparr>redirect_cache := (redirect_cache w)(to_string u := None)\<rparr>"
    obtain r w1 where s: "resolve E u ?w0 = (r, w1)" by (cases "resolve E u ?w0")
    have w1: "snd (checkRedirects E u w) = w1"
      by (simp add: checkRedirects_miss [OF None] s)
    from resolve_axios [OF assms s] redirect_call.prems redirect_call.IH show ?thesis
      unfolding w1 by (auto split: if_splits)
  qed
qed

section \<open>Promise.all fills every slot\<close>

lemma those_filled:
  "\<forall>x \<in> set xs. x \<noteq> None \<Longrightarrow> those xs = Some (map the xs)"
  by (induction xs) auto

lemma settle_slots:
  assumes tasks: "\<And>i v. i < length tasks \<Longrightarrow> P i (fst ((tasks ! i) v))"
  shows "settle sched tasks slots w = (slots1, w1) \<Longrightarrow> length slots = length tasks \<Longrightarrow>
         (\<And>i v. i < length tasks \<Longrightarrow> slots ! i = Some v \<Longrightarrow> P i v) \<Longrightarrow>
         length slots1 = length tasks \<and>
         (\<forall>i < length tasks. \<forall>v. slots1 ! i = Some v \<longrightarrow> P i v) \<and>
         (\<forall>i < length tasks. i \<in> set sched \<or> slots ! i \<noteq> None \<longrightarrow> slots1 ! i \<noteq> None)"
proof (induction sched arbitrary: slots w)
  case Nil
  then show ?case by simp
next
  case (Cons i sched)
  show ?case
  proof (cases "i < length tasks")
    case False
    with Cons.prems(1) have "settle sched tasks slots w = (slots1, w1)" by simp
    from Cons.IH [OF this Cons.prems(2)] Cons.prems(3) False show ?thesis by auto
  next
    case True
    obtain v w2 where t: "(tasks ! i) w = (v, w2)" by (cases "(tasks ! i) w")
    with Cons.prems(1) True have s: "settle sched tasks (slots[i := Some v]) w2 = (slots1, w1)"
      by simp
    have Pv: "P i v" using tasks [OF True, of w] t by simp
    have inv: "P j x" if "j < length tasks" "(slots[i := Some v]) ! j = Some x" for j x
      using that Pv Cons.prems(2,3) by (cases "j = i") auto
    have "length (slots[i := Some v]) = length tasks" using Cons.prems(2) by simp
    from Cons.IH [OF s this inv] have
      1: "length slots1 = length tasks"
      and 2: "\<forall>j < length tasks. \<forall>x. slots1 ! j = Some x \<longrightarrow> P j x"
      and 3: "\<forall>j < length tasks. j \<in> set sched \<or> (slots[i := Some v]) ! j \<noteq> None \<longrightarrow> slots1 ! j \<noteq> None"
      by blast+
    have "slots1 ! j \<noteq> None" if "j < length tasks" "j \<in> set (i # sched) \<or> slots ! j \<noteq> None" for j
    proof (cases "j = i")
      case True
      with 3 that(1) Cons.prems(2) show ?thesis by simp
    next
      case False
      then have "(slots[i := Some v]) ! j = slots ! j" by simp
      with 3 [rule_format, of j] that False show ?thesis by auto
    qed
    with 1 2 show ?thesis by blast
  qed
qed

lemma promise_all_fulfilled:
  assumes tasks: "\<And>i v. i < length tasks \<Longrightarrow> P i (fst ((tasks ! i) v))"
    and sched: "{..<length tasks} \<subseteq> set sched"
  shows "\<exists>vs w1. promise_all sched tasks w = (Some vs, w1) \<and> length vs = length tasks \<and>
           (\<forall>i < length tasks. P i (vs ! i))"
proof -
  obtain slots1 w1 where s: "settle sched tasks (replicate (length tasks) None) w = (slots1, w1)"
    by (cases "settle sched tasks (replicate (length tasks) None) w")
  have "length slots1 = length tasks \<and>
        (\<forall>i < length tasks. \<forall>v. slots1 ! i = Some v \<longrightarrow> P i v) \<and>
        (\<forall>i < length tasks. i \<in> set sched \<longrightarrow> slots1 ! i \<noteq> None)"
    using settle_slots [where P = P and tasks = tasks, OF tasks s] by simp
  with sched have len: "length slots1 = length tasks"
    and P: "\<And>i v. i < length tasks \<Longrightarrow> slots1 ! i = Some v \<Longrightarrow> P i v"
    and filled: "\<And>i. i < length tasks \<Longrightarrow> slots1 ! i \<noteq> None"
    by auto
  have "\<forall>x \<in> set slots1. x \<noteq> None"
    using filled len by (auto simp: in_set_conv_nth)
  then have "those slots1 = Some (map the slots1)" by (rule those_filled)
  moreover have "P i (map the slots1 ! i)" if "i < length tasks" for i
    using P [OF that] filled [OF that] len that by auto
  ultimately show ?thesis
    using s len by (simp add: promise_all_def)
qed

lemma check_one_url: "url (fst (check_one E b u w)) = u"
  by (simp add: check_one_def Let_def split: prod.splits)

lemma check_urls_array:
  assumes "{..<length us} \<subseteq> set (outer S)"
  shows "\<exists>rs w1. check_urls E S (JArr us) w = (Some (Ok rs), w1) \<and> map url rs = us"
proof -
  let ?tasks = "map (\<lambda>(i, u). check_one E (safety_first S i) u) (zip [0..<length us] us)"
  have len: "length ?tasks = length us" by simp
  have "url (fst ((?tasks ! i) v)) = us ! i" if "i < length ?tasks" for i v
    using that by (simp add: check_one_url)
  from promise_all_fulfilled [where P = "\<lambda>i r. url r = us ! i" and tasks = ?tasks, OF this, of "outer S" w]
    assms
  obtain vs w1 where p: "promise_all (outer S) ?tasks w = (Some vs, w1)"
    and l: "length vs = length us" and u: "\<forall>i < length us. url (vs ! i) = us ! i"
    unfolding len by blast
  have "map url vs = us"
    using l u by (simp add: list_eq_iff_nth_eq)
  with p show ?thesis
    by (simp add: check_urls_def)
qed

section \<open>The handler stays within the reachable states\<close>

lemma check_one_reachable:
  "reachable E w \<Longrightarrow> reachable E (snd (check_one E b u w))"
proof -
  assume r: "reachable E w"
  have 1: "reachable E (snd (checkRedirects E u (snd (checkUrlSafety E u w))))"
    by (intro reachable.redirect_call reachable.safety_call r)
  have 2: "reachable E (snd (checkUrlSafety E u (snd (checkRedirects E u w))))"
    by (intro reachable.redirect_call reachable.safety_call r)
  show ?thesis
    using r 1 2
    by (auto simp: check_one_def promise_both_def Let_def split: prod.splits)
qed

lemma settle_reachable:
  assumes "\<And>i v. i < length tasks \<Longrightarrow> reachable E v \<Longrightarrow> reachable E (snd ((tasks ! i) v))"
  shows "reachable E w \<Longrightarrow> reachable E (snd (settle sched tasks slots w))"
proof (induction sched arbitrary: slots w)
  case Nil
  then show ?case by simp
next
  case (Cons i sched)
  show ?case
  proof (cases "i < length tasks")
    case True
    obtain v w2 where t: "(tasks ! i) w = (v, w2)" by (cases "(tasks ! i) w")
    from assms [OF True Cons.prems] t have "reachable E w2" by simp
    from Cons.IH [OF this] True t show ?thesis by simp
  next
    case False
    with Cons show ?thesis by simp
  qed
qed

lemma check_urls_reachable:
  assumes "reachable E w"
  shows "reachable E (snd (check_urls E S urls w))"
proof (cases urls)
  case (JArr us)
  let ?tasks = "map (\<lambda>(i, u). check_one E (safety_first S i) u) (zip [0..<length us] us)"
  have "reachable E (snd ((?tasks ! i) v))" if "i < length ?tasks" "reachable E v" for i v
    using that by (simp add: check_one_reachable)
  from settle_reachable [of ?tasks E w "outer S" "replicate (length ?tasks) None", OF this assms]
  show ?thesis
    using JArr by (auto simp: check_urls_def promise_all_def split: prod.splits)
qed (use assms in \<open>simp_all add: check_urls_def\<close>)

section \<open>The claims\<close>

subsection \<open>C1: one result per URL, in the order of the input\<close>

text \<open>
  Claim C1. For every array of URLs the handler accepts, the response holds exactly one
  result per element, and the \<open>url\<close> field of the i-th result is the i-th element,
  whatever the order in which the tasks of the URLs complete and whichever of the two
  checks of a URL completes first. The schedule \<open>S\<close> is arbitrary; all that is asked of
  it is that every task completes, which every permutation of the indices satisfies.
\<close>

theorem order_preserved:
  assumes "{..<length us} \<subseteq> set (outer S)"
  shows "\<exists>rs w1. check_urls E S (JArr us) w = (Some (Ok rs), w1) \<and>
           length rs = length us \<and> map url rs = us"
proof -
  from check_urls_array [OF assms, of E w] obtain rs w1 where
    r: "check_urls E S (JArr us) w = (Some (Ok rs), w1)" and u: "map url rs = us"
    by blast
  from u have "length rs = length us" by (metis length_map)
  with r u show ?thesis by blast
qed

text \<open>
  Three URLs, the second of which does not parse; the third task completes first, then
  the first, then the second.
\<close>

theorem order_preserved_witness:
  "{..<length [url_a, JStr ''not-a-url'', url_b]}
     \<subseteq> set (outer \<lparr>outer = [2, 0, 1], safety_first = (\<lambda>i. i = 0)\<rparr>) \<and>
   (\<exists>rs w1. check_urls (scripted []) \<lparr>outer = [2, 0, 1], safety_first = (\<lambda>i. i = 0)\<rparr>
               (JArr [url_a, JStr ''not-a-url'', url_b]) world0 = (Some (Ok rs), w1) \<and>
             length rs = length [url_a, JStr ''not-a-url'', url_b] \<and>
             map url rs = [url_a, JStr ''not-a-url'', url_b])"
proof -
  have h: "{..<length [url_a, JStr ''not-a-url'', url_b]}
             \<subseteq> set (outer \<lparr>outer = [2, 0, 1], safety_first = (\<lambda>i. i = 0)\<rparr>)"
    by auto
  show ?thesis
    by (rule conjI [OF h order_preserved [OF h]])
qed

subsection \<open>C2: the hop bound\<close>

text \<open>
  Claim C2. In every state the server can reach, for every URL and every behaviour of
  the network, the result of \<open>checkRedirects\<close> has a chain of at least one and at most
  four URLs: the traversal goes at most three hops beyond the origin. This covers the
  results computed afresh, the error results and the results served from the cache.
\<close>

theorem hop_bound:
  assumes "reachable E w" and "checkRedirects E u w = (r, w1)"
  shows "1 \<le> length (redirect_chain r) \<and> int (length (redirect_chain r)) - 1 \<le> 3"
  using checkRedirects_result [OF assms] by (auto simp: well_formed_def)

text \<open>
  Answered hop by hop by targets that redirect for ever, the chain stops at four URLs;
  with the redirects followed inside the request, it is the origin alone.
\<close>

theorem hop_bound_witness:
  "reachable env_loop world0 \<and>
   length (redirect_chain (fst (checkRedirects env_loop url_a world0))) = 4 \<and>
   (1 \<le> length (redirect_chain (fst (checkRedirects env_loop url_a world0))) \<and>
    int (length (redirect_chain (fst (checkRedirects env_loop url_a world0)))) - 1 \<le> 3) \<and>
   axios_follows env_followed \<and> reachable env_followed world0 \<and>
   length (redirect_chain (fst (checkRedirects env_followed url_a world0))) = 1 \<and>
   (1 \<le> length (redirect_chain (fst (checkRedirects env_followed url_a world0))) \<and>
    int (length (redirect_chain (fst (checkRedirects env_followed url_a world0)))) - 1 \<le> 3)"
proof -
  have h: "reachable env_loop world0"
    unfolding world0_def by (rule reachable.start)
  have e: "length (redirect_chain (fst (checkRedirects env_loop url_a world0))) = 4"
    by (simp add: env_loop_def run)
  have c: "checkRedirects env_loop url_a world0 =
             (fst (checkRedirects env_loop url_a world0), snd (checkRedirects env_loop url_a world0))"
    by simp
  have a': "axios_follows env_followed"
    by (rule axios_follows_followed)
  have h': "reachable env_followed world0"
    unfolding world0_def by (rule reachable.start)
  have e': "length (redirect_chain (fst (checkRedirects env_followed url_a world0))) = 1"
    by (simp add: env_followed_def run)
  have c': "checkRedirects env_followed url_a world0 =
             (fst (checkRedirects env_followed url_a world0),
              snd (checkRedirects env_followed url_a world0))"
    by simp
  show ?thesis
    by (intro conjI h e hop_bound [OF h c, THEN conjunct1] hop_bound [OF h c, THEN conjunct2]
          a' h' e' hop_bound [OF h' c', THEN conjunct1] hop_bound [OF h' c', THEN conjunct2])
qed

subsection \<open>C3: unsafe without positives\<close>

text \<open>
  Claim C3 says that a result with status \<open>unsafe\<close> has \<open>positives > 0\<close>, also when the
  report has no \<open>positives\<close> property. The code compares the property with \<open>0\<close> to choose
  the status and replaces an absent property by \<open>0\<close> in the next line; for a complete
  report without the property it answers \<open>unsafe\<close> with \<open>positives = 0\<close>.
\<close>

theorem absent_positives_reported_unsafe:
  "fst (checkUrlSafety env_no_positives url_a world0) =
     \<lparr>status = ''unsafe'', message = None, positives = Some 0, total_scans = Some 70\<rparr>"
  by (simp add: env_no_positives_def run poll_report_5)

subsection \<open>C4: the suspicious classification\<close>

text \<open>
  Claim C4. In every state the server can reach, a result of \<open>checkRedirects\<close> that is
  not an error is suspicious if and only if its chain has more than one URL and the
  safety result of the final URL has status \<open>unsafe\<close> with \<open>positives > 0\<close>; every other
  result that is not an error is clean.
\<close>

theorem suspicious_law:
  assumes "reachable E w" and "checkRedirects E u w = (r, w1)" and "r_status r \<noteq> ''error''"
  shows "((r_status r = ''suspicious'') =
            (length (redirect_chain r) > 1 \<and> status (final_url_safety r) = ''unsafe'' \<and>
             (\<exists>p. positives (final_url_safety r) = Some p \<and> p > 0))) \<and>
         (r_status r \<noteq> ''suspicious'' \<longrightarrow> r_status r = ''clean'')"
  using checkRedirects_result [OF assms(1,2)] assms(3)
  by (auto simp: well_formed_def split: option.splits)

text \<open>
  Answered hop by hop, one redirect to a URL with three positives gives a suspicious
  result; with the redirect followed inside the request, the result is clean and no
  redirect is on record.
\<close>

theorem suspicious_law_witness:
  "reachable env_flagged world0 \<and>
   r_status (fst (checkRedirects env_flagged url_a world0)) = ''suspicious'' \<and>
   redirect_chain (fst (checkRedirects env_flagged url_a world0)) = [url_a, url_b] \<and>
   length (redirect_chain (fst (checkRedirects env_flagged url_a world0))) > 1 \<and>
   status (final_url_safety (fst (checkRedirects env_flagged url_a world0))) = ''unsafe'' \<and>
   (\<exists>p. positives (final_url_safety (fst (checkRedirects env_flagged url_a world0))) = Some p \<and> p > 0) \<and>
   axios_follows env_followed \<and> reachable env_followed world0 \<and>
   length (redirect_chain (fst (checkRedirects env_followed url_a world0))) = 1 \<and>
   r_status (fst (checkRedirects env_followed url_a world0)) = ''clean''"
proof -
  let ?r = "fst (checkRedirects env_flagged url_a world0)"
  let ?r' = "fst (checkRedirects env_followed url_a world0)"
  have h: "reachable env_flagged world0"
    unfolding world0_def by (rule reachable.start)
  have s: "r_status ?r = ''suspicious''" and ch: "redirect_chain ?r = [url_a, url_b]"
    by (simp_all add: env_flagged_def run poll_report_5)
  have ne: "r_status ?r \<noteq> ''error''" by (simp add: s)
  have c: "checkRedirects env_flagged url_a world0 = (?r, snd (checkRedirects env_flagged url_a world0))"
    by simp
  from suspicious_law [OF h c ne, THEN conjunct1] s
  have 1: "length (redirect_chain ?r) > 1 \<and> status (final_url_safety ?r) = ''unsafe'' \<and>
        (\<exists>p. positives (final_url_safety ?r) = Some p \<and> p > 0)"
    by (rule iffD1)
  have a': "axios_follows env_followed"
    by (rule axios_follows_followed)
  have h': "reachable env_followed world0"
    unfolding world0_def by (rule reachable.start)
  have l': "length (redirect_chain ?r') = 1"
    by (simp add: env_followed_def run)
  have ne': "r_status ?r' \<noteq> ''error''"
    by (simp add: env_followed_def run)
  have c': "checkRedirects env_followed url_a world0 = (?r', snd (checkRedirects env_followed url_a world0))"
    by simp
  have "r_status ?r' \<noteq> ''suspicious''"
    using suspicious_law [OF h' c' ne', THEN conjunct1] l' by simp
  with suspicious_law [OF h' c' ne', THEN conjunct2]
  have 2: "r_status ?r' = ''clean''"
    by (rule mp)
  from h s ch 1 a' h' l' 2 show ?thesis by blast
qed

subsection \<open>C5: poll exhaustion\<close>

text \<open>
  Claim C5. When the cache holds no fresh entry for the URL, the submission is answered
  with status 200 and each of the five requests for the report is answered without the
  report being complete, \<open>checkUrlSafety\<close> returns the error \<open>No scan results available\<close>
  after one submission and five polls, the cache holds no entry for the URL afterwards,
  and the next call for the same URL, at whatever time, starts with a new submission.
\<close>

theorem poll_exhaustion:
  assumes miss: "safety_hit w u = None"
    and sub: "fst (net E (log w) (Scan (to_string u))) = Fulfilled sr" "resp_status sr = 200"
    and polls: "polls_incomplete E (to_string u) 5 (log w @ [Scan (to_string u)])"
  shows "\<exists>w1. checkUrlSafety E u w =
                (\<lparr>status = ''error'', message = Some ''No scan results available'',
                  positives = None, total_scans = None\<rparr>, w1) \<and>
              safety_cache w1 (to_string u) = None \<and>
              log w1 = log w @ Scan (to_string u) # replicate 5 (Report (to_string u)) \<and>
              (\<forall>t. \<exists>k. log (snd (checkUrlSafety E u (w1\<lparr>now := t\<rparr>))) =
                          log w1 @ Scan (to_string u) # replicate k (Report (to_string u)))"
proof -
  let ?w0 = "w\<lparr>safety_cache := (safety_cache w)(to_string u := None)\<rparr>"
  obtain dt where n: "net E (log w) (Scan (to_string u)) = (Fulfilled sr, dt)"
    using sub(1) by (cases "net E (log w) (Scan (to_string u))") simp
  define w2 where "w2 = ?w0\<lparr>now := now w + int dt, log := log w @ [Scan (to_string u)]\<rparr>"
  have h: "http E (Scan (to_string u)) ?w0 = (Fulfilled sr, w2)"
    by (simp add: http_def n w2_def)
  have "polls_incomplete E (to_string u) 5 (log w2)"
    using polls by (simp add: w2_def)
  from poll_report_exhausted [OF this] obtain w1 where
    p: "poll_report E u 5 w2 =
          (Inr \<lparr>status = ''error'', message = Some ''No scan results available'',
                positives = None, total_scans = None\<rparr>, w1)"
    and c: "safety_cache w1 = safety_cache w2"
    and l: "log w1 = log w2 @ replicate 5 (Report (to_string u))"
    by blast
  have r: "checkUrlSafety E u w =
             (\<lparr>status = ''error'', message = Some ''No scan results available'',
               positives = None, total_scans = None\<rparr>, w1)"
    by (simp add: checkUrlSafety_miss [OF miss] scan_def scan_try_def h sub(2) p)
  have k: "safety_cache w1 (to_string u) = None"
    by (simp add: c w2_def)
  have "safety_hit (w1\<lparr>now := t\<rparr>) u = None" for t
    by (simp add: safety_hit_def k)
  from checkUrlSafety_miss_log [OF this] have
    "\<exists>k. log (snd (checkUrlSafety E u (w1\<lparr>now := t\<rparr>))) =
           log w1 @ Scan (to_string u) # replicate k (Report (to_string u))" for t
    by simp
  with r k l show ?thesis
    by (simp add: w2_def)
qed

text \<open>An accepted submission followed by five reports with \<open>response_code = 0\<close>.\<close>

theorem poll_exhaustion_witness:
  "safety_hit world0 url_a = None \<and>
   fst (net env_pending (log world0) (Scan (to_string url_a))) =
     Fulfilled \<lparr>resp_status = 200, resp_data = None, resp_location = None\<rparr> \<and>
   polls_incomplete env_pending (to_string url_a) 5 (log world0 @ [Scan (to_string url_a)]) \<and>
   fst (checkUrlSafety env_pending url_a world0) =
     \<lparr>status = ''error'', message = Some ''No scan results available'',
      positives = None, total_scans = None\<rparr> \<and>
   safety_cache (snd (checkUrlSafety env_pending url_a world0)) (to_string url_a) = None"
proof -
  have h1: "safety_hit world0 url_a = None"
    by (simp add: safety_hit_def world0_def)
  have h2: "fst (net env_pending (log world0) (Scan (to_string url_a))) =
              Fulfilled \<lparr>resp_status = 200, resp_data = None, resp_location = None\<rparr>"
    by (simp add: env_pending_def run)
  have h3: "resp_status \<lparr>resp_status = 200, resp_data = None, resp_location = None\<rparr> = 200"
    by simp
  have h4: "polls_incomplete env_pending (to_string url_a) 5 (log world0 @ [Scan (to_string url_a)])"
    by (simp add: env_pending_def run eval_nat_numeral)
  from poll_exhaustion [OF h1 h2 h3 h4] h1 h2 h4 show ?thesis
    by auto
qed

subsection \<open>C6: an exception during the traversal\<close>

text \<open>
  Claim C6. When the cache holds no fresh entry for the URL and the traversal throws,
  \<open>checkRedirects\<close> returns status \<open>error\<close> with the message of the exception, the chain
  collected before the failure, no status codes and the final safety \<open>{status: error}\<close>;
  the state is that of the traversal with the entry of the URL removed, so nothing is
  written to the cache. The \<open>catch\<close> writes the chain \<open>[url]\<close>, and that is the chain
  collected: the instance follows redirects itself, so the first request is the only
  one the traversal issues, and when it throws nothing but the origin has been pushed.
\<close>

theorem traversal_error:
  assumes real: "axios_follows E"
    and miss: "redirect_hit w u = None"
    and trav: "traverse E u w = (Inl m, w1)"
  shows "checkRedirects E u w =
           (\<lparr>r_status = ''error'', r_message = Some m,
             redirect_chain = chain_collected E u w, status_codes = [],
             final_url_safety = \<lparr>status = ''error'', message = None,
                                  positives = None, total_scans = None\<rparr>\<rparr>,
            w1\<lparr>redirect_cache := (redirect_cache w)(to_string u := None)\<rparr>) \<and>
         chain_collected E u w = [u] \<and>
         redirect_cache (snd (checkRedirects E u w)) (to_string u) = None"
  by (simp add: checkRedirects_miss [OF miss] resolve_def traverse_redirect_cache trav
        chain_collected_axios [OF real])

text \<open>
  A URL behind more than three redirects: the request is rejected with
  \<open>Maximum number of redirects exceeded\<close>.
\<close>

theorem traversal_error_witness:
  "axios_follows env_too_many_redirects \<and>
   redirect_hit world0 url_a = None \<and>
   fst (traverse env_too_many_redirects url_a world0) =
     Inl ''Maximum number of redirects exceeded'' \<and>
   fst (checkRedirects env_too_many_redirects url_a world0) =
     \<lparr>r_status = ''error'', r_message = Some ''Maximum number of redirects exceeded'',
      redirect_chain = chain_collected env_too_many_redirects url_a world0,
      status_codes = [],
      final_url_safety = \<lparr>status = ''error'', message = None,
                           positives = None, total_scans = None\<rparr>\<rparr> \<and>
   chain_collected env_too_many_redirects url_a world0 = [url_a] \<and>
   redirect_cache (snd (checkRedirects env_too_many_redirects url_a world0)) (to_string url_a) = None"
proof -
  have h0: "axios_follows env_too_many_redirects"
    by (rule axios_follows_too_many)
  have h1: "redirect_hit world0 url_a = None"
    by (simp add: redirect_hit_def world0_def)
  have h2: "fst (traverse env_too_many_redirects url_a world0) =
              Inl ''Maximum number of redirects exceeded''"
    by (simp add: env_too_many_redirects_def run)
  then have h3: "traverse env_too_many_redirects url_a world0 =
                   (Inl ''Maximum number of redirects exceeded'',
                    snd (traverse env_too_many_redirects url_a world0))"
    by (metis prod.collapse)
  from traversal_error [OF h0 h1 h3] h0 h1 h2 show ?thesis
    by simp
qed

subsection \<open>C7: expiry after the TTL\<close>

text \<open>
  Claim C7. When the entry stored for a URL is 24 hours old or older, a call of
  \<open>checkUrlSafety\<close> does exactly what it does in the state without that entry: it
  starts with a new submission, and afterwards the cache holds for the URL either
  nothing or the result just computed, stamped with the time it was written. The same
  holds of \<open>checkRedirects\<close>, which starts with a new request to the URL. The entry is
  removed by the read that finds it expired, and the entries of the other keys of that
  cache, expired or not, stay as they are: there is no sweep.
\<close>

theorem ttl_expiry:
  "(\<forall>e r w1. safety_cache w (to_string u) = Some e \<and> CACHE_TTL \<le> now w - timestamp e \<and>
       checkUrlSafety E u w = (r, w1) \<longrightarrow>
       checkUrlSafety E u (w\<lparr>safety_cache := (safety_cache w)(to_string u := None)\<rparr>) = (r, w1) \<and>
       (\<exists>rs. log w1 = log w @ Scan (to_string u) # rs) \<and>
       (safety_cache w1 (to_string u) = None \<or>
        safety_cache w1 (to_string u) = Some \<lparr>data = r, timestamp = now w1\<rparr>) \<and>
       (\<forall>k. k \<noteq> to_string u \<longrightarrow> safety_cache w1 k = safety_cache w k)) \<and>
   (\<forall>e r w1. redirect_cache w (to_string u) = Some e \<and> CACHE_TTL \<le> now w - timestamp e \<and>
       checkRedirects E u w = (r, w1) \<longrightarrow>
       checkRedirects E u (w\<lparr>redirect_cache := (redirect_cache w)(to_string u := None)\<rparr>) = (r, w1) \<and>
       (\<exists>rs. log w1 = log w @ HttpGet u # rs) \<and>
       (redirect_cache w1 (to_string u) = None \<or>
        redirect_cache w1 (to_string u) = Some \<lparr>data = r, timestamp = now w1\<rparr>) \<and>
       (\<forall>k. k \<noteq> to_string u \<longrightarrow> redirect_cache w1 k = redirect_cache w k))"
proof (intro conjI allI impI)
  fix e r w1
  assume a: "safety_cache w (to_string u) = Some e \<and> CACHE_TTL \<le> now w - timestamp e \<and>
             checkUrlSafety E u w = (r, w1)"
  let ?w0 = "w\<lparr>safety_cache := (safety_cache w)(to_string u := None)\<rparr>"
  from a have s: "scan E u ?w0 = (r, w1)" by (auto simp: checkUrlSafety_def)
  show "checkUrlSafety E u ?w0 = (r, w1)" using s by (simp add: checkUrlSafety_def)
  from scan_effect [OF s] show "\<exists>rs. log w1 = log w @ Scan (to_string u) # rs" by auto
  from scan_effect [OF s]
  show "safety_cache w1 (to_string u) = None \<or>
        safety_cache w1 (to_string u) = Some \<lparr>data = r, timestamp = now w1\<rparr>"
    by (cases "status r = ''error''") simp_all
  fix k
  assume "k \<noteq> to_string u"
  with scan_effect [OF s] show "safety_cache w1 k = safety_cache w k"
    by (cases "status r = ''error''") simp_all
next
  fix e r w1
  assume a: "redirect_cache w (to_string u) = Some e \<and> CACHE_TTL \<le> now w - timestamp e \<and>
             checkRedirects E u w = (r, w1)"
  let ?w0 = "w\<lparr>redirect_cache := (redirect_cache w)(to_string u := None)\<rparr>"
  from a have s: "resolve E u ?w0 = (r, w1)" by (auto simp: checkRedirects_def)
  show "checkRedirects E u ?w0 = (r, w1)" using s by (simp add: checkRedirects_def)
  from resolve_log [OF s] show "\<exists>rs. log w1 = log w @ HttpGet u # rs" by simp
  from resolve_effect [OF s]
  show "redirect_cache w1 (to_string u) = None \<or>
        redirect_cache w1 (to_string u) = Some \<lparr>data = r, timestamp = now w1\<rparr>"
    by auto
  fix k
  assume "k \<noteq> to_string u"
  with resolve_effect [OF s] show "redirect_cache w1 k = redirect_cache w k"
    by auto
qed

text \<open>
  Both entries of \<open>url_a\<close> are one millisecond past the TTL; the network is down. Each
  call issues its request, fails, and leaves no entry behind.
\<close>

theorem ttl_expiry_witness:
  "(\<exists>e. safety_cache world_stale (to_string url_a) = Some e \<and>
         CACHE_TTL \<le> now world_stale - timestamp e) \<and>
   (\<exists>rs. log (snd (checkUrlSafety (scripted []) url_a world_stale)) =
           log world_stale @ Scan (to_string url_a) # rs) \<and>
   (\<exists>e. redirect_cache world_stale (to_string url_a) = Some e \<and>
         CACHE_TTL \<le> now world_stale - timestamp e) \<and>
   (\<exists>rs. log (snd (checkRedirects (scripted []) url_a world_stale)) =
           log world_stale @ HttpGet url_a # rs)"
proof -
  obtain e where e: "safety_cache world_stale (to_string url_a) = Some e"
      "CACHE_TTL \<le> now world_stale - timestamp e"
    by (simp add: world_stale_def url_a_def CACHE_TTL_def)
  obtain e' where e': "redirect_cache world_stale (to_string url_a) = Some e'"
      "CACHE_TTL \<le> now world_stale - timestamp e'"
    by (simp add: world_stale_def url_a_def CACHE_TTL_def)
  have c: "checkUrlSafety (scripted []) url_a world_stale =
             (fst (checkUrlSafety (scripted []) url_a world_stale),
              snd (checkUrlSafety (scripted []) url_a world_stale))"
    and c': "checkRedirects (scripted []) url_a world_stale =
             (fst (checkRedirects (scripted []) url_a world_stale),
              snd (checkRedirects (scripted []) url_a world_stale))"
    by simp_all
  from ttl_expiry [of world_stale url_a "scripted []", THEN conjunct1, rule_format, OF conjI [OF e(1) conjI [OF e(2) c]]]
  have 1: "\<exists>rs. log (snd (checkUrlSafety (scripted []) url_a world_stale)) =
                 log world_stale @ Scan (to_string url_a) # rs"
    by blast
  from ttl_expiry [of world_stale url_a "scripted []", THEN conjunct2, rule_format, OF conjI [OF e'(1) conjI [OF e'(2) c']]]
  have 2: "\<exists>rs. log (snd (checkRedirects (scripted []) url_a world_stale)) =
                 log world_stale @ HttpGet url_a # rs"
    by blast
  from e e' 1 2 show ?thesis by blast
qed

subsection \<open>C8: two calls in a row\<close>

text \<open>
  Claim C8. Take two consecutive calls of \<open>checkUrlSafety\<close> for a URL, the second at any
  time \<open>t\<close> at which the cache holds a fresh entry for the URL. Then the second call
  returns what the first returned, at most one submission was made over the two calls,
  the second call issued no request, and when the entry was already fresh at the first
  call no request was issued at all.
\<close>

theorem cache_idempotence:
  assumes first: "checkUrlSafety E u w = (r1, w1)"
    and fresh: "safety_hit (w1\<lparr>now := t\<rparr>) u \<noteq> None"
    and second: "checkUrlSafety E u (w1\<lparr>now := t\<rparr>) = (r2, w2)"
  shows "r2 = r1 \<and> submissions (log w2) \<le> submissions (log w) + 1 \<and>
         log w2 = log w1 \<and> (safety_hit w u \<noteq> None \<longrightarrow> log w2 = log w)"
proof -
  from fresh obtain r where hit: "safety_hit (w1\<lparr>now := t\<rparr>) u = Some r" by blast
  with second have r2: "r2 = r" and w2: "w2 = w1\<lparr>now := t\<rparr>"
    by (simp_all add: checkUrlSafety_hit)
  from hit obtain e where e: "safety_cache w1 (to_string u) = Some e" "data e = r"
    by (auto simp: safety_hit_def split: option.splits if_splits)
  show ?thesis
  proof (cases "safety_hit w u")
    case (Some r')
    with first have "r1 = r'" "w1 = w" by (simp_all add: checkUrlSafety_hit)
    with Some e r2 w2 show ?thesis
      by (auto simp: safety_hit_def split: option.splits if_splits)
  next
    case None
    let ?w0 = "w\<lparr>safety_cache := (safety_cache w)(to_string u := None)\<rparr>"
    from first None have s: "scan E u ?w0 = (r1, w1)" by (simp add: checkUrlSafety_miss)
    note eff = scan_effect [OF s]
    have "status r1 \<noteq> ''error''"
    proof
      assume "status r1 = ''error''"
      with eff have "safety_cache w1 (to_string u) = None" by simp
      with e show False by simp
    qed
    with eff e have "r = r1" by auto
    moreover from eff obtain k where
      "log w1 = log w @ Scan (to_string u) # replicate k (Report (to_string u))" by auto
    ultimately show ?thesis using r2 w2 None by simp
  qed
qed

text \<open>
  The first call finds nothing in the cache and stores a clean verdict; the second
  call, an hour later, returns it, and the log holds the one submission.
\<close>

theorem cache_idempotence_witness:
  "safety_hit ((snd (checkUrlSafety env_clean url_a world0))\<lparr>now := 3600000\<rparr>) url_a \<noteq> None \<and>
   fst (checkUrlSafety env_clean url_a ((snd (checkUrlSafety env_clean url_a world0))\<lparr>now := 3600000\<rparr>))
     = fst (checkUrlSafety env_clean url_a world0) \<and>
   submissions (log (snd (checkUrlSafety env_clean url_a
                      ((snd (checkUrlSafety env_clean url_a world0))\<lparr>now := 3600000\<rparr>))))
     \<le> submissions (log world0) + 1"
proof -
  let ?w1 = "snd (checkUrlSafety env_clean url_a world0)"
  have h: "safety_hit (?w1\<lparr>now := 3600000\<rparr>) url_a \<noteq> None"
    by (simp add: safety_hit_def env_clean_def run poll_report_5)
  have c1: "checkUrlSafety env_clean url_a world0 = (fst (checkUrlSafety env_clean url_a world0), ?w1)"
    by simp
  have c2: "checkUrlSafety env_clean url_a (?w1\<lparr>now := 3600000\<rparr>) =
              (fst (checkUrlSafety env_clean url_a (?w1\<lparr>now := 3600000\<rparr>)),
               snd (checkUrlSafety env_clean url_a (?w1\<lparr>now := 3600000\<rparr>)))"
    by simp
  from cache_idempotence [OF c1 h c2] h show ?thesis
    by blast
qed

subsection \<open>C9: the bad request\<close>

text \<open>
  Claim C9 says that the handler answers 400 exactly when \<open>urls\<close> is not a sequence of
  strings. The handler tests \<open>!urls || !Array.isArray(urls)\<close> and nothing else: an array
  whose elements are not strings is accepted. The array \<open>[null]\<close> is not a sequence of
  strings, and the handler answers it with one result, for the element \<open>null\<close>.
\<close>

theorem non_string_element_counterexample:
  "\<not> is_string_seq (JArr [JNull]) \<and>
   fst (check_urls (scripted []) (in_order 1) (JArr [JNull]) world0) \<noteq>
     Some (BadRequest ''Invalid input: URLs must be an array'') \<and>
   fst (check_urls (scripted []) (in_order 1) (JArr [JNull]) world0) =
     Some (Ok [\<lparr>url = JNull,
                structure = \<lparr>v_status = ''invalid'', v_domain = None,
                              v_message = Some ''Invalid URL format'',
                              v_redirect_chain = Some [JNull], v_status_codes = Some [],
                              v_final_url_safety =
                                Some \<lparr>status = ''invalid'', message = None,
                                      positives = None, total_scans = None\<rparr>\<rparr>,
                safety = \<lparr>status = ''error'', message = Some ''Invalid URL'',
                          positives = None, total_scans = None\<rparr>,
                redirects = \<lparr>r_status = ''error'', r_message = Some ''Invalid URL'',
                             redirect_chain = [JNull], status_codes = [],
                             final_url_safety = \<lparr>status = ''invalid'', message = None,
                                                  positives = None, total_scans = None\<rparr>\<rparr>\<rparr>])"
  by (simp add: check_urls_def promise_all_def check_one_def validateUrlStructure_def
        in_order_def scripted_def example_parse_def world0_def)

text \<open>
  Claim C9, amended. The handler answers 400 with the body
  \<open>{error: Invalid input: URLs must be an array}\<close> exactly when \<open>urls\<close> is not an array
  (absent, \<open>null\<close> or any other value), and then it leaves the state as it was: no work
  on any URL has started. Every array is accepted, whatever its elements are, and once
  all its tasks have completed the answer holds one result per element.
\<close>

theorem bad_request_iff_not_array:
  "((fst (check_urls E S urls w) = Some (BadRequest ''Invalid input: URLs must be an array''))
      = (\<not> isArray urls)) \<and>
   (\<not> isArray urls \<longrightarrow> snd (check_urls E S urls w) = w) \<and>
   (\<forall>us. urls = JArr us \<and> {..<length us} \<subseteq> set (outer S) \<longrightarrow>
      (\<exists>rs. fst (check_urls E S urls w) = Some (Ok rs) \<and> length rs = length us))"
proof (intro conjI allI impI)
  show "(fst (check_urls E S urls w) = Some (BadRequest ''Invalid input: URLs must be an array''))
          = (\<not> isArray urls)"
    by (cases urls) (auto simp: check_urls_def split: prod.splits)
  show "snd (check_urls E S urls w) = w" if "\<not> isArray urls"
    using that by (simp add: check_urls_def)
next
  fix us
  assume a: "urls = JArr us \<and> {..<length us} \<subseteq> set (outer S)"
  then have "{..<length us} \<subseteq> set (outer S)" by simp
  from check_urls_array [OF this, of E w] obtain rs w1 where
    r: "check_urls E S (JArr us) w = (Some (Ok rs), w1)" and u: "map url rs = us"
    by blast
  from u have "length rs = length us" by (metis length_map)
  with r a show "\<exists>rs. fst (check_urls E S urls w) = Some (Ok rs) \<and> length rs = length us"
    by simp
qed

text \<open>A string in the place of the array is refused; an array of one URL is answered.\<close>

theorem bad_request_iff_not_array_witness:
  "\<not> isArray (JStr ''http://not-an-array'') \<and>
   fst (check_urls (scripted []) (in_order 0) (JStr ''http://not-an-array'') world0) =
     Some (BadRequest ''Invalid input: URLs must be an array'') \<and>
   snd (check_urls (scripted []) (in_order 0) (JStr ''http://not-an-array'') world0) = world0 \<and>
   {..<length [url_a]} \<subseteq> set (outer (in_order 1)) \<and>
   (\<exists>rs. fst (check_urls (scripted []) (in_order 1) (JArr [url_a]) world0) = Some (Ok rs) \<and>
         length rs = length [url_a])"
proof -
  have h: "\<not> isArray (JStr ''http://not-an-array'')" by simp
  have g: "{..<length [url_a]} \<subseteq> set (outer (in_order 1))"
    by (auto simp: in_order_def)
  note t = bad_request_iff_not_array [of "scripted []" "in_order 0" "JStr ''http://not-an-array''" world0]
  note t' = bad_request_iff_not_array [of "scripted []" "in_order 1" "JArr [url_a]" world0]
  from t h have 1: "fst (check_urls (scripted []) (in_order 0) (JStr ''http://not-an-array'') world0) =
     Some (BadRequest ''Invalid input: URLs must be an array'')" by blast
  from t h have 2: "snd (check_urls (scripted []) (in_order 0) (JStr ''http://not-an-array'') world0) = world0"
    by blast
  from t' g have 3: "\<exists>rs. fst (check_urls (scripted []) (in_order 1) (JArr [url_a]) world0) = Some (Ok rs) \<and>
         length rs = length [url_a]" by blast
  from h 1 2 g 3 show ?thesis by blast
qed

subsection \<open>C10: a safety error inside a stored redirect result\<close>

text \<open>
  Claim C10 says that in some execution a clean result that embeds a safety error is
  stored and then served from the cache. The code does write every result of the \<open>try\<close>
  to the cache, whatever the embedded safety result says, and it asks for the safety of
  the final URL once the chain has more than one URL. The chain never has: the
  instance is created with \<open>maxRedirects: 3\<close> and follows redirects itself, so the loop
  that the comments introduce with "Follow redirects manually to capture each status
  code" never runs. In every state the server can reach, a result of \<open>checkRedirects\<close>
  is an error or carries \<open>{status: no_redirect}\<close>, every stored result carries
  \<open>{status: no_redirect}\<close>, and \<open>checkRedirects\<close> makes no submission to the scanning
  service.
\<close>

theorem no_embedded_safety_error:
  assumes "axios_follows E" and "reachable E w" and "checkRedirects E u w = (r, w1)"
  shows "(r_status r = ''error'' \<or>
          final_url_safety r = \<lparr>status = ''no_redirect'', message = None,
                                  positives = None, total_scans = None\<rparr>) \<and>
         (\<forall>k e. redirect_cache w1 k = Some e \<longrightarrow>
                  status (final_url_safety (data e)) = ''no_redirect'') \<and>
         submissions (log w1) = submissions (log w)"
proof -
  have w1: "w1 = snd (checkRedirects E u w)" using assms(3) by simp
  have "reachable E w1" unfolding w1 by (rule reachable.redirect_call [OF assms(2)])
  from reachable_axios_cache [OF assms(1) this]
  have cached: "\<forall>k e. redirect_cache w1 k = Some e \<longrightarrow>
                  status (final_url_safety (data e)) = ''no_redirect''"
    by (auto simp: no_redirect_result_def)
  show ?thesis
  proof (cases "redirect_hit w u")
    case (Some r')
    with assms(3) have eq: "r' = r" "w1 = w" by (simp_all add: checkRedirects_hit)
    with Some obtain e where "redirect_cache w (to_string u) = Some e" "data e = r"
      by (auto simp: redirect_hit_def split: option.splits if_splits)
    with reachable_axios_cache [OF assms(1,2)] have "no_redirect_result r" by blast
    with cached eq show ?thesis by (simp add: no_redirect_result_def)
  next
    case None
    with assms(3) have "resolve E u (w\<lparr>redirect_cache := (redirect_cache w)(to_string u := None)\<rparr>) = (r, w1)"
      by (simp add: checkRedirects_miss)
    from resolve_axios [OF assms(1) this] cached show ?thesis
      by (auto simp: no_redirect_result_def submissions_def)
  qed
qed

text \<open>
  A URL that redirects to another, whose scan never completes. The program sees the
  200 of the target, stores a clean result with \<open>{status: no_redirect}\<close> and the chain
  of the origin alone, and has issued one request, to the origin.
\<close>

theorem no_embedded_safety_error_witness:
  "axios_follows env_followed \<and> reachable env_followed world0 \<and>
   fst (checkRedirects env_followed url_a world0) =
     \<lparr>r_status = ''clean'', r_message = None, redirect_chain = [url_a], status_codes = [200],
      final_url_safety = \<lparr>status = ''no_redirect'', message = None,
                           positives = None, total_scans = None\<rparr>\<rparr> \<and>
   log (snd (checkRedirects env_followed url_a world0)) = [HttpGet url_a] \<and>
   redirect_cache (snd (checkRedirects env_followed url_a world0)) (to_string url_a) =
     Some \<lparr>data = fst (checkRedirects env_followed url_a world0), timestamp = 120\<rparr> \<and>
   (r_status (fst (checkRedirects env_followed url_a world0)) = ''error'' \<or>
    final_url_safety (fst (checkRedirects env_followed url_a world0)) =
      \<lparr>status = ''no_redirect'', message = None, positives = None, total_scans = None\<rparr>) \<and>
   submissions (log (snd (checkRedirects env_followed url_a world0))) = submissions (log world0)"
proof -
  have h0: "axios_follows env_followed"
    by (rule axios_follows_followed)
  have h1: "reachable env_followed world0"
    unfolding world0_def by (rule reachable.start)
  have c: "checkRedirects env_followed url_a world0 =
             (fst (checkRedirects env_followed url_a world0),
              snd (checkRedirects env_followed url_a world0))"
    by simp
  have e1: "fst (checkRedirects env_followed url_a world0) =
     \<lparr>r_status = ''clean'', r_message = None, redirect_chain = [url_a], status_codes = [200],
      final_url_safety = \<lparr>status = ''no_redirect'', message = None,
                           positives = None, total_scans = None\<rparr>\<rparr>"
    by (simp add: env_followed_def run)
  have e2: "log (snd (checkRedirects env_followed url_a world0)) = [HttpGet url_a]"
    by (simp add: env_followed_def run)
  have e3: "redirect_cache (snd (checkRedirects env_followed url_a world0)) (to_string url_a) =
              Some \<lparr>data = fst (checkRedirects env_followed url_a world0), timestamp = 120\<rparr>"
    by (simp add: env_followed_def run)
  note t = no_embedded_safety_error [OF h0 h1 c]
  show ?thesis
    by (intro conjI h0 h1 e1 e2 e3 t [THEN conjunct1] t [THEN conjunct2, THEN conjunct2])
qed

end
